theory Spec2Isabelle
  imports Main "HOL-Library.Char_ord" "HOL-Library.List_Lexorder" "HOL-Library.Multiset"
begin

section \<open>Deployment plans: the data model of pkg/resource/plan.go\<close>

type_synonym Moniker = string
type_synonym Type = string
type_synonym Package = string
type_synonym ID = string
type_synonym error = string

text \<open>
  Modelled from the spec: the declaration of \<open>ResourceState\<close> is not part of plan.go.
  The spec (4.5) lists its values: OK, unknown, pending, corrupt.
\<close>

datatype ResourceState = StateOK | StateUnknown | StatePending | StateCorrupt

text \<open>
  Modelled from the spec: the property model is not part of plan.go. The spec (3) gives
  the variants of a property value: scalars, sequences, nested bags and references to
  resources (monikers). A bag is kept as a list of its entries.
\<close>

datatype PropertyValue =
    PNull
  | PBool bool
  | PNumber int
  | PString string
  | PArray "PropertyValue list"
  | PObject "(string \<times> PropertyValue) list"
  | PResource Moniker

type_synonym PropertyMap = "(string \<times> PropertyValue) list"

text \<open>
  Modelled from the spec: \<open>AllResources\<close> enumerates every transitively embedded
  reference. In the source its result is a Go map used as a set, so each moniker is
  listed once.
\<close>

fun refsOf :: "PropertyValue \<Rightarrow> Moniker list" where
  "refsOf (PResource m) = [m]"
| "refsOf (PArray vs) = concat (map refsOf vs)"
| "refsOf (PObject kvs) = concat (map (\<lambda>kv. refsOf (snd kv)) kvs)"
| "refsOf PNull = []"
| "refsOf (PBool b) = []"
| "refsOf (PNumber n) = []"
| "refsOf (PString s) = []"

definition AllResources :: "PropertyMap \<Rightarrow> Moniker list" where
  "AllResources props = remdups (concat (map (\<lambda>kv. refsOf (snd kv)) props))"

text \<open>
  Modelled from the spec: \<open>DeepEquals\<close> is deep structural equality of two bags.
\<close>

definition DeepEquals :: "PropertyMap \<Rightarrow> PropertyMap \<Rightarrow> bool" where
  "DeepEquals a b = (a = b)"

text \<open>
  A resource as plan.go reads it through the \<open>Resource\<close> interface: \<open>Moniker()\<close>,
  \<open>Type()\<close>, \<open>ID()\<close> and \<open>Properties()\<close>. The empty string is the absent ID, as in
  the source's test \<open>id != ID("")\<close>.
\<close>

record Resource =
  moniker :: Moniker
  rtype :: Type
  rid :: ID
  properties :: PropertyMap

definition HasID :: "Resource \<Rightarrow> bool" where
  "HasID r = (rid r \<noteq> [])"

definition SetID :: "Resource \<Rightarrow> ID \<Rightarrow> Resource" where
  "SetID r i = r\<lparr>rid := i\<rparr>"

text \<open>
  Modelled from the spec: \<open>Type.Package()\<close> is the leading segment of the dotted type
  token.
\<close>

definition PackageOf :: "Type \<Rightarrow> Package" where
  "PackageOf t = takeWhile (\<lambda>c. c \<noteq> CHR ''.'') t"

subsection \<open>Steps and panics\<close>

text \<open>
  \<open>StepOp\<close> is a string type in the source, with four named constants.
\<close>

type_synonym StepOp = string

definition OpCreate :: StepOp where "OpCreate = ''create''"
definition OpRead :: StepOp where "OpRead = ''read''"
definition OpUpdate :: StepOp where "OpUpdate = ''update''"
definition OpDelete :: StepOp where "OpDelete = ''delete''"

text \<open>
  The fields of \<open>step\<close>. The back pointer \<open>p\<close> is only used to reach the plan's context,
  which the functions below take as an argument; the \<open>next\<close> pointers of a chain are
  the order of a list of steps.
\<close>

record step =
  op :: StepOp
  old :: "Resource option"
  new :: "Resource option"

definition newCreateStep :: "Resource \<Rightarrow> step" where
  "newCreateStep n = \<lparr>op = OpCreate, old = None, new = Some n\<rparr>"

definition newDeleteStep :: "Resource \<Rightarrow> step" where
  "newDeleteStep o' = \<lparr>op = OpDelete, old = Some o', new = None\<rparr>"

definition newUpdateStep :: "Resource \<Rightarrow> Resource \<Rightarrow> step" where
  "newUpdateStep o' n = \<lparr>op = OpUpdate, old = Some o', new = Some n\<rparr>"

text \<open>
  A failed \<open>contract.Assert\<close>, \<open>contract.Assertf\<close> or \<open>contract.Failf\<close> panics. The
  first carries nothing, the other two the message written at the call.
\<close>

datatype panic = AssertFailed | AssertfFailed string | Failf string

subsection \<open>Providers\<close>

text \<open>
  The calls that reach a provider or the progress observer, in the order they are made.
\<close>

datatype call =
    CallCreate Type PropertyMap
  | CallUpdate ID Type PropertyMap PropertyMap
  | CallDelete ID Type
  | CallBefore step
  | CallAfter step "error option" ResourceState

text \<open>
  Modelled from the spec: the provider contract (6). A provider is an external
  component; its answer may depend on everything that was called before, so each
  operation reads the calls made so far.
\<close>

record Provider =
  Create :: "call list \<Rightarrow> Type \<Rightarrow> PropertyMap \<Rightarrow> ID \<times> error option \<times> ResourceState"
  Update :: "call list \<Rightarrow> ID \<Rightarrow> Type \<Rightarrow> PropertyMap \<Rightarrow> PropertyMap
               \<Rightarrow> ID \<times> error option \<times> ResourceState"
  Delete :: "call list \<Rightarrow> ID \<Rightarrow> Type \<Rightarrow> error option \<times> ResourceState"

text \<open>\<open>Context.Provider\<close>: a provider for a package, or the error of acquiring it.\<close>

type_synonym Context = "Package \<Rightarrow> error + Provider"

definition plan_Provider :: "Context \<Rightarrow> Resource \<Rightarrow> error + Provider" where
  "plan_Provider ctx res = ctx (PackageOf (rtype res))"

subsection \<open>Executing one step\<close>

text \<open>
  \<open>step.Apply\<close>. The result is a panic, or the step as the call leaves it (the new
  resource is the only object the source writes to), the returned error and state, and
  the calls made so far.
\<close>

type_synonym applied = "step \<times> error option \<times> ResourceState \<times> call list"

definition applyCreate :: "Context \<Rightarrow> call list \<Rightarrow> step \<Rightarrow> panic + applied" where
  "applyCreate ctx tr s =
     (if old s \<noteq> None then Inl AssertFailed
      else
        (case new s of
           None \<Rightarrow> Inl AssertFailed
         | Some n \<Rightarrow>
             (if HasID n
              then Inl (AssertfFailed ''Resources being created must not have IDs already'')
              else
                (case plan_Provider ctx n of
                   Inl err \<Rightarrow> Inr (s, Some err, StateOK, tr)
                 | Inr prov \<Rightarrow>
                     (let c = CallCreate (rtype n) (properties n)
                      in (case Create prov tr (rtype n) (properties n) of
                            (i, Some err, rst) \<Rightarrow> Inr (s, Some err, rst, tr @ [c])
                          | (i, None, rst) \<Rightarrow>
                              Inr (s\<lparr>new := Some (SetID n i)\<rparr>, None, StateOK, tr @ [c])))))))"

definition applyDelete :: "Context \<Rightarrow> call list \<Rightarrow> step \<Rightarrow> panic + applied" where
  "applyDelete ctx tr s =
     (case old s of
        None \<Rightarrow> Inl AssertFailed
      | Some o' \<Rightarrow>
          (if new s \<noteq> None then Inl AssertFailed
           else if \<not> HasID o'
           then Inl (AssertfFailed ''Resources being deleted must have IDs'')
           else
             (case plan_Provider ctx o' of
                Inl err \<Rightarrow> Inr (s, Some err, StateOK, tr)
              | Inr prov \<Rightarrow>
                  (let c = CallDelete (rid o') (rtype o')
                   in (case Delete prov tr (rid o') (rtype o') of
                         (Some err, rst) \<Rightarrow> Inr (s, Some err, rst, tr @ [c])
                       | (None, rst) \<Rightarrow> Inr (s, None, StateOK, tr @ [c]))))))"

definition applyUpdate :: "Context \<Rightarrow> call list \<Rightarrow> step \<Rightarrow> panic + applied" where
  "applyUpdate ctx tr s =
     (case old s of
        None \<Rightarrow> Inl AssertFailed
      | Some o' \<Rightarrow>
          (case new s of
             None \<Rightarrow> Inl AssertFailed
           | Some n \<Rightarrow>
               (if rtype o' \<noteq> rtype n then Inl AssertFailed
                else if \<not> HasID o'
                then Inl (AssertfFailed ''Resources being updated must have IDs'')
                else
                  (case plan_Provider ctx o' of
                     Inl err \<Rightarrow> Inr (s, Some err, StateOK, tr)
                   | Inr prov \<Rightarrow>
                       (let c = CallUpdate (rid o') (rtype o') (properties o') (properties n)
                        in (case Update prov tr (rid o') (rtype o') (properties o') (properties n) of
                              (i, Some err, rst) \<Rightarrow> Inr (s, Some err, rst, tr @ [c])
                            | (i, None, rst) \<Rightarrow>
                                (if i \<noteq> []
                                 then Inr (s\<lparr>new := Some (SetID n i)\<rparr>, None, StateOK, tr @ [c])
                                 else Inr (s, None, StateOK, tr @ [c]))))))))"

definition step_Apply :: "Context \<Rightarrow> call list \<Rightarrow> step \<Rightarrow> panic + applied" where
  "step_Apply ctx tr s =
     (if op s = OpCreate then applyCreate ctx tr s
      else if op s = OpDelete then applyDelete ctx tr s
      else if op s = OpUpdate then applyUpdate ctx tr s
      else Inl (Failf (''Unexpected step operation: '' @ op s)))"

subsection \<open>Executing a plan\<close>

text \<open>
  One turn of the loop of \<open>plan.Apply\<close>: the observer's \<open>Before\<close>, the step's own
  \<open>Apply\<close>, the observer's \<open>After\<close>. \<open>prog\<close> says whether an observer was given.
\<close>

definition attempt :: "Context \<Rightarrow> bool \<Rightarrow> call list \<Rightarrow> step \<Rightarrow> panic + applied" where
  "attempt ctx prog tr s =
     (case step_Apply ctx (if prog then tr @ [CallBefore s] else tr) s of
        Inl p \<Rightarrow> Inl p
      | Inr (s', err, rst, tr') \<Rightarrow>
          Inr (s', err, rst, if prog then tr' @ [CallAfter s' err rst] else tr'))"

text \<open>
  \<open>plan.Apply\<close> on the chain that starts at \<open>p.Steps()\<close>. It returns the chain as the
  steps left it, the error, the failing step, the resource state and the calls made.
\<close>

type_synonym outcome = "step list \<times> error option \<times> step option \<times> ResourceState \<times> call list"

fun plan_Apply :: "Context \<Rightarrow> bool \<Rightarrow> call list \<Rightarrow> step list \<Rightarrow> panic + outcome" where
  "plan_Apply ctx prog tr [] = Inr ([], None, None, StateOK, tr)"
| "plan_Apply ctx prog tr (s # rest) =
     (case attempt ctx prog tr s of
        Inl p \<Rightarrow> Inl p
      | Inr (s', Some err, rst, tr') \<Rightarrow> Inr (s' # rest, Some err, Some s', rst, tr')
      | Inr (s', None, rst, tr') \<Rightarrow>
          (case plan_Apply ctx prog tr' rest of
             Inl p \<Rightarrow> Inl p
           | Inr (rest', r) \<Rightarrow> Inr (s' # rest', r)))"

text \<open>
  \<open>succeed ctx prog tr ss ss' tr'\<close>: attempted one after the other from the calls
  \<open>tr\<close>, every step of \<open>ss\<close> returns without an error; \<open>ss'\<close> are the steps afterwards
  and \<open>tr'\<close> the calls made.
\<close>

inductive succeed :: "Context \<Rightarrow> bool \<Rightarrow> call list \<Rightarrow> step list \<Rightarrow> step list \<Rightarrow> call list \<Rightarrow> bool"
  for ctx :: Context and prog :: bool where
  succeed_Nil: "succeed ctx prog tr [] [] tr"
| succeed_Cons:
    "attempt ctx prog tr s = Inr (s', None, rst, tr1) \<Longrightarrow> succeed ctx prog tr1 ss ss' tr2
     \<Longrightarrow> succeed ctx prog tr (s # ss) (s' # ss') tr2"

section \<open>Plan construction\<close>

subsection \<open>The plan graph\<close>

text \<open>
  Modelled from the spec: the plan graph (\<open>planVertex\<close>, \<open>connectTo\<close>, \<open>newPlanGraph\<close>)
  is not part of plan.go. By the spec (3, 4.2) a vertex wraps one step and holds inbound
  and outbound adjacency sets keyed by vertex identity; edges are deduplicated and
  self-edges are not added. A vertex is identified by the moniker it is stored under.
\<close>

record planVertex =
  data :: step
  ins :: "Moniker set"
  outs :: "Moniker set"

definition newPlanVertex :: "step \<Rightarrow> planVertex" where
  "newPlanVertex s = \<lparr>data = s, ins = {}, outs = {}\<rparr>"

type_synonym vertices = "Moniker \<rightharpoonup> planVertex"

definition connectTo :: "vertices \<Rightarrow> Moniker \<Rightarrow> Moniker \<Rightarrow> vertices" where
  "connectTo vs a b =
     (if a = b then vs
      else
        (case vs a of
           None \<Rightarrow> vs
         | Some va \<Rightarrow>
             (case vs b of
                None \<Rightarrow> vs
              | Some vb \<Rightarrow>
                  vs(a \<mapsto> va\<lparr>outs := insert b (outs va)\<rparr>,
                     b \<mapsto> vb\<lparr>ins := insert a (ins vb)\<rparr>))))"

text \<open>
  The graph handed to the sequencer: the root edges' targets, in the order the source
  appended them, and the vertex objects they lead to. \<open>nodes\<close> lists the monikers
  under which a vertex was stored.
\<close>

record planGraph =
  roots :: "Moniker list"
  vertexOf :: vertices
  nodes :: "Moniker list"

subsection \<open>The sequencer\<close>

text \<open>
  Modelled from the spec: \<open>graph.Topsort\<close> is not part of the sources. By the spec
  (4.3) it produces a linear order in which, for every edge from \<open>a\<close> to \<open>b\<close>, \<open>b\<close>
  comes before \<open>a\<close>; among the vertices with no remaining prerequisite it takes the
  least moniker in lexicographic order; a cycle is an error that names the monikers
  involved. It sees the vertices that the root edges lead to.
\<close>

datatype sortError = CycleDetected "Moniker list"

definition outsOf :: "planGraph \<Rightarrow> Moniker \<Rightarrow> Moniker set" where
  "outsOf g m = (case vertexOf g m of None \<Rightarrow> {} | Some v \<Rightarrow> outs v)"

primrec reach :: "planGraph \<Rightarrow> nat \<Rightarrow> Moniker set \<Rightarrow> Moniker set" where
  "reach g 0 S = S"
| "reach g (Suc n) S = reach g n (S \<union> (\<Union>m\<in>S. outsOf g m))"

definition reachable :: "planGraph \<Rightarrow> Moniker list" where
  "reachable g =
     filter (\<lambda>m. m \<in> reach g (length (nodes g)) (set (roots g))) (sort (remdups (nodes g)))"

primrec sequence :: "planGraph \<Rightarrow> nat \<Rightarrow> Moniker list \<Rightarrow> Moniker list \<Rightarrow> sortError + Moniker list" where
  "sequence g 0 rest done = (if rest = [] then Inr done else Inl (CycleDetected rest))"
| "sequence g (Suc n) rest done =
     (case filter (\<lambda>m. outsOf g m \<subseteq> set done) rest of
        [] \<Rightarrow> (if rest = [] then Inr done else Inl (CycleDetected rest))
      | m # ready \<Rightarrow> sequence g n (removeAll m rest) (done @ [m]))"

definition Topsort :: "planGraph \<Rightarrow> sortError + planVertex list" where
  "Topsort g =
     (case sequence g (length (reachable g)) (reachable g) [] of
        Inl e \<Rightarrow> Inl e
      | Inr order \<Rightarrow> Inr (List.map_filter (vertexOf g) order))"

subsection \<open>newPlan\<close>

text \<open>
  A snapshot is read through \<open>Resources()\<close> only; an absent snapshot has no resources
  (lines 105 to 112).
\<close>

type_synonym Snapshot = "Resource list"

definition Resources :: "Snapshot option \<Rightarrow> Resource list" where
  "Resources snap = (case snap of None \<Rightarrow> [] | Some rs \<Rightarrow> rs)"

text \<open>
  Go leaves the order in which \<open>range\<close> visits the keys of a map unspecified. The
  functions below take that order as the argument \<open>iter\<close>: given the keys of a map,
  it returns them in the order of the visit. \<open>keyOrder iter\<close> says that \<open>iter\<close> visits
  every key once.
\<close>

type_synonym order = "Moniker list \<Rightarrow> Moniker list"

definition keyOrder :: "order \<Rightarrow> bool" where
  "keyOrder iter = (\<forall>ks. distinct ks \<longrightarrow> distinct (iter ks) \<and> set (iter ks) = set ks)"

definition keysOf :: "Resource list \<Rightarrow> Moniker list" where
  "keysOf rs = remdups (map moniker rs)"

text \<open>
  A loop whose body may panic: the first panic ends it.
\<close>

primrec foldE :: "('a \<Rightarrow> 's \<Rightarrow> panic + 's) \<Rightarrow> 'a list \<Rightarrow> 's \<Rightarrow> panic + 's" where
  "foldE f [] st = Inr st"
| "foldE f (x # xs) st = (case f x st of Inl p \<Rightarrow> Inl p | Inr st' \<Rightarrow> foldE f xs st')"

text \<open>Lines 129 to 142: the maps \<open>olds\<close>, \<open>olddepends\<close> and \<open>news\<close>.\<close>

definition indexOlds :: "Resource list \<Rightarrow> Moniker \<rightharpoonup> Resource" where
  "indexOlds oldres = fold (\<lambda>res olds. olds(moniker res \<mapsto> res)) oldres Map.empty"

definition indexDepends :: "order \<Rightarrow> Resource list \<Rightarrow> Moniker \<Rightarrow> Moniker list" where
  "indexDepends iter oldres =
     fold (\<lambda>res olddepends.
             fold (\<lambda>ref d. d(ref := d ref @ [moniker res]))
                  (iter (AllResources (properties res))) olddepends)
          oldres (\<lambda>ref. [])"

definition indexNews :: "Resource list \<Rightarrow> Moniker \<rightharpoonup> Resource" where
  "indexNews newres = fold (\<lambda>res news. news(moniker res \<mapsto> res)) newres Map.empty"

text \<open>
  What the diff leaves for the graph builder: the vertices and the three tables. The
  tables are keyed by resource in the source; resources with the same fields are one
  key here.
\<close>

record diffState =
  vs :: vertices
  deletes :: "Resource set"
  creates :: "Resource set"
  updates :: "Resource \<rightharpoonup> Resource"

definition emptyDiff :: diffState where
  "emptyDiff = \<lparr>vs = Map.empty, deletes = {}, creates = {}, updates = Map.empty\<rparr>"

text \<open>Lines 150 to 158: one turn of the loop over \<open>olds\<close>, at key \<open>k\<close>.\<close>

definition deleteAt :: "(Moniker \<rightharpoonup> Resource) \<Rightarrow> (Moniker \<rightharpoonup> Resource) \<Rightarrow> Moniker \<Rightarrow> diffState \<Rightarrow> diffState" where
  "deleteAt olds news k st =
     (case olds k of
        None \<Rightarrow> st
      | Some res \<Rightarrow>
          (if news (moniker res) = None
           then st\<lparr>deletes := insert res (deletes st),
                   vs := (vs st)(moniker res \<mapsto> newPlanVertex (newDeleteStep res))\<rparr>
           else st))"

text \<open>Lines 163 to 181: one turn of the loop over \<open>news\<close>, at key \<open>k\<close>.\<close>

definition createOrUpdateAt :: "(Moniker \<rightharpoonup> Resource) \<Rightarrow> (Moniker \<rightharpoonup> Resource) \<Rightarrow> Moniker \<Rightarrow> diffState \<Rightarrow> panic + diffState" where
  "createOrUpdateAt olds news k st =
     (case news k of
        None \<Rightarrow> Inr st
      | Some res \<Rightarrow>
          (case olds (moniker res) of
             Some oldres \<Rightarrow>
               (if rtype oldres \<noteq> rtype res then Inl AssertFailed
                else if \<not> DeepEquals (properties res) (properties oldres)
                then Inr (st\<lparr>updates := (updates st)(oldres \<mapsto> res),
                             vs := (vs st)(moniker res \<mapsto> newPlanVertex (newUpdateStep oldres res))\<rparr>)
                else Inr st)
           | None \<Rightarrow>
               Inr (st\<lparr>creates := insert res (creates st),
                       vs := (vs st)(moniker res \<mapsto> newPlanVertex (newCreateStep res))\<rparr>)))"

text \<open>Lines 129 to 181: the diff of the two resource lists.\<close>

definition diff :: "order \<Rightarrow> Resource list \<Rightarrow> Resource list \<Rightarrow> panic + diffState" where
  "diff iter oldres newres =
     (let olds = indexOlds oldres; news = indexNews newres
      in foldE (createOrUpdateAt olds news) (iter (keysOf newres))
           (fold (deleteAt olds news) (iter (keysOf oldres)) emptyDiff))"

text \<open>
  Lines 192 to 234: the edges. \<open>vs[ref]\<close> of a moniker with no vertex is nil, and the
  source asserts that it is not.
\<close>

definition edgeTo :: "Moniker \<Rightarrow> Moniker \<Rightarrow> vertices \<Rightarrow> panic + vertices" where
  "edgeTo m ref v =
     (case v ref of None \<Rightarrow> Inl AssertFailed | Some tov \<Rightarrow> Inr (connectTo v m ref))"

definition edgeFrom :: "Moniker \<Rightarrow> Moniker \<Rightarrow> vertices \<Rightarrow> panic + vertices" where
  "edgeFrom m ref v =
     (case v ref of None \<Rightarrow> Inl AssertFailed | Some fromv \<Rightarrow> Inr (connectTo v ref m))"

definition edgesOld :: "order \<Rightarrow> diffState \<Rightarrow> (Moniker \<Rightarrow> Moniker list) \<Rightarrow> Resource \<Rightarrow> vertices \<Rightarrow> panic + vertices" where
  "edgesOld iter st olddepends res v =
     (if res \<in> deletes st
      then
        (case v (moniker res) of
           None \<Rightarrow> Inl AssertFailed
         | Some tov \<Rightarrow> foldE (edgeFrom (moniker res)) (olddepends (moniker res)) v)
      else
        (case updates st res of
           None \<Rightarrow> Inr v
         | Some to \<Rightarrow>
             (case v (moniker res) of
                None \<Rightarrow> Inl AssertFailed
              | Some fromv \<Rightarrow>
                  foldE (edgeTo (moniker res)) (iter (AllResources (properties to))) v)))"

definition edgesNew :: "order \<Rightarrow> diffState \<Rightarrow> Resource \<Rightarrow> vertices \<Rightarrow> panic + vertices" where
  "edgesNew iter st res v =
     (if res \<in> creates st
      then
        (case v (moniker res) of
           None \<Rightarrow> Inl AssertFailed
         | Some fromv \<Rightarrow>
             foldE (edgeTo (moniker res)) (iter (AllResources (properties res))) v)
      else Inr v)"

definition edges :: "order \<Rightarrow> Resource list \<Rightarrow> Resource list \<Rightarrow> diffState \<Rightarrow> panic + vertices" where
  "edges iter oldres newres st =
     (case foldE (edgesOld iter st (indexDepends iter oldres)) oldres (vs st) of
        Inl p \<Rightarrow> Inl p
      | Inr v \<Rightarrow> foldE (edgesNew iter st) newres v)"

text \<open>Lines 236 to 245: the vertices with no inbound edge become the roots.\<close>

definition vertexKeys :: "Resource list \<Rightarrow> Resource list \<Rightarrow> vertices \<Rightarrow> Moniker list" where
  "vertexKeys oldres newres v = filter (\<lambda>m. v m \<noteq> None) (keysOf (oldres @ newres))"

definition findRoots :: "order \<Rightarrow> Moniker list \<Rightarrow> vertices \<Rightarrow> Moniker list" where
  "findRoots iter keys v =
     filter (\<lambda>m. case v m of None \<Rightarrow> False | Some x \<Rightarrow> ins x = {}) (iter keys)"

definition newPlanGraph :: "order \<Rightarrow> Resource list \<Rightarrow> Resource list \<Rightarrow> vertices \<Rightarrow> planGraph" where
  "newPlanGraph iter oldres newres v =
     \<lparr>roots = findRoots iter (vertexKeys oldres newres v) v,
      vertexOf = v,
      nodes = vertexKeys oldres newres v\<rparr>"

text \<open>
  The chain of a plan: \<open>first\<close> and the \<open>next\<close> pointers, as the list of the steps
  they link. \<open>insertStep\<close> puts a step at the end; its assertion that the plan has no
  first step yet holds whenever the chain is empty.
\<close>

type_synonym plan = "step list"

definition Steps :: "plan \<Rightarrow> step option" where
  "Steps p = (case p of [] \<Rightarrow> None | s # rest \<Rightarrow> Some s)"

definition Empty :: "plan \<Rightarrow> bool" where
  "Empty p = (Steps p = None)"

definition insertStep :: "plan \<Rightarrow> step \<Rightarrow> plan" where
  "insertStep chain s = chain @ [s]"

text \<open>Lines 104 to 253.\<close>

definition newPlan :: "order \<Rightarrow> Snapshot option \<Rightarrow> Snapshot option \<Rightarrow> panic + plan" where
  "newPlan iter old' new' =
     (let oldres = Resources old'; newres = Resources new'
      in (case diff iter oldres newres of
            Inl p \<Rightarrow> Inl p
          | Inr st \<Rightarrow>
              (case edges iter oldres newres st of
                 Inl p \<Rightarrow> Inl p
               | Inr v \<Rightarrow>
                   (case Topsort (newPlanGraph iter oldres newres v) of
                      Inl err \<Rightarrow>
                        Inl (AssertfFailed ''Unexpected error topologically sorting update plan'')
                    | Inr topdag \<Rightarrow>
                        Inr (fold (\<lambda>x chain. insertStep chain (data x)) topdag [])))))"

definition NewPlan :: "order \<Rightarrow> Snapshot option \<Rightarrow> Snapshot option \<Rightarrow> panic + plan" where
  "NewPlan iter old' new' = newPlan iter old' new'"

subsection \<open>The diff in closed form\<close>

text \<open>
  \<open>keyed t\<close>: every resource of the table \<open>t\<close> is stored under its own moniker, as
  in \<open>olds\<close> and \<open>news\<close>.
\<close>

definition keyed :: "(Moniker \<rightharpoonup> Resource) \<Rightarrow> bool" where
  "keyed t = (\<forall>k r. t k = Some r \<longrightarrow> moniker r = k)"

text \<open>
  The classification of the spec (4.1), for the moniker \<open>m\<close>: a delete when it is in
  the old snapshot only, a create when it is in the new one only, an update when it is in
  both and the property bags differ, and nothing otherwise. \<open>diffOf\<close> is the state the
  diff is expected to reach, and \<open>diverge\<close> says that some moniker has different types
  in the two snapshots.
\<close>

definition vertexFor :: "(Moniker \<rightharpoonup> Resource) \<Rightarrow> (Moniker \<rightharpoonup> Resource) \<Rightarrow> vertices" where
  "vertexFor olds news m =
     (case olds m of
        None \<Rightarrow>
          (case news m of
             None \<Rightarrow> None
           | Some n \<Rightarrow> Some (newPlanVertex (newCreateStep n)))
      | Some ol \<Rightarrow>
          (case news m of
             None \<Rightarrow> Some (newPlanVertex (newDeleteStep ol))
           | Some n \<Rightarrow>
               if DeepEquals (properties n) (properties ol) then None
               else Some (newPlanVertex (newUpdateStep ol n))))"

definition diffOf :: "(Moniker \<rightharpoonup> Resource) \<Rightarrow> (Moniker \<rightharpoonup> Resource) \<Rightarrow> diffState" where
  "diffOf olds news =
     \<lparr>vs = vertexFor olds news,
      deletes = {r. \<exists>k. olds k = Some r \<and> news k = None},
      creates = {n. \<exists>k. news k = Some n \<and> olds k = None},
      updates = (\<lambda>ol. if olds (moniker ol) = Some ol \<and>
                         (\<exists>n. news (moniker ol) = Some n \<and>
                              \<not> DeepEquals (properties n) (properties ol))
                      then news (moniker ol) else None)\<rparr>"

definition diverge :: "(Moniker \<rightharpoonup> Resource) \<Rightarrow> (Moniker \<rightharpoonup> Resource) \<Rightarrow> bool" where
  "diverge olds news = (\<exists>k n ol. news k = Some n \<and> olds k = Some ol \<and> rtype ol \<noteq> rtype n)"

text \<open>
  The graph that \<open>newPlan\<close> hands to the sequencer (lines 129 to 245), and what it
  means for that graph to hold a cycle the sequencer can see: \<open>cyc\<close> is not empty, and
  each of its vertices can be reached from a root and has an outbound edge to a vertex of
  \<open>cyc\<close>.
\<close>

definition graphOf :: "order \<Rightarrow> Resource list \<Rightarrow> Resource list \<Rightarrow> panic + planGraph" where
  "graphOf iter oldres newres =
     (case diff iter oldres newres of
        Inl p \<Rightarrow> Inl p
      | Inr st \<Rightarrow>
          (case edges iter oldres newres st of
             Inl p \<Rightarrow> Inl p
           | Inr v \<Rightarrow> Inr (newPlanGraph iter oldres newres v)))"

definition cyclic :: "planGraph \<Rightarrow> Moniker list \<Rightarrow> bool" where
  "cyclic g cyc =
     (cyc \<noteq> [] \<and> (\<forall>x\<in>set cyc. x \<in> set (reachable g) \<and> (\<exists>y\<in>set cyc. y \<in> outsOf g x)))"

text \<open>
  One turn of a loop whose body may panic, as a function on the outcome so far: \<open>foldE\<close>
  is the \<open>fold\<close> of it.
\<close>

definition liftE :: "('a \<Rightarrow> 's \<Rightarrow> panic + 's) \<Rightarrow> 'a \<Rightarrow> panic + 's \<Rightarrow> panic + 's" where
  "liftE f x r = (case r of Inl p \<Rightarrow> Inl p | Inr s \<Rightarrow> f x s)"

section \<open>Test fixtures\<close>

text \<open>
  Concrete resources, providers and steps on which the theorems below are instantiated:
  a provider that succeeds (and replaces resources of type \<open>pkg.R\<close> on update), one
  whose every operation fails, and a context that knows the packages \<open>pkg\<close> and
  \<open>broken\<close> only.
\<close>

definition resource :: "Moniker \<Rightarrow> Type \<Rightarrow> ID \<Rightarrow> PropertyMap \<Rightarrow> Resource" where
  "resource m t i p = \<lparr>moniker = m, rtype = t, rid = i, properties = p\<rparr>"

definition mockProvider :: Provider where
  "mockProvider =
     \<lparr>Create = (\<lambda>tr t p. (''id-1'', None, StateOK)),
      Update = (\<lambda>tr i t p q. (if t = ''pkg.R'' then ''A-2'' else [], None, StateOK)),
      Delete = (\<lambda>tr i t. (None, StateOK))\<rparr>"

definition brokenProvider :: Provider where
  "brokenProvider =
     \<lparr>Create = (\<lambda>tr t p. ([], Some ''create failed'', StateUnknown)),
      Update = (\<lambda>tr i t p q. ([], Some ''update failed'', StateCorrupt)),
      Delete = (\<lambda>tr i t. (Some ''delete failed'', StatePending))\<rparr>"

definition mockContext :: Context where
  "mockContext pkg =
     (if pkg = ''pkg'' then Inr mockProvider
      else if pkg = ''broken'' then Inr brokenProvider
      else Inl ''no provider for package'')"

definition createA :: step where
  "createA = newCreateStep (resource ''A'' ''pkg.X'' [] [])"

definition createdA :: step where
  "createdA = newCreateStep (resource ''A'' ''pkg.X'' ''id-1'' [])"

definition updateB :: step where
  "updateB = newUpdateStep (resource ''B'' ''broken.X'' ''b1'' [])
                           (resource ''B'' ''broken.X'' [] [(''v'', PNumber 2)])"

definition deleteD :: step where
  "deleteD = newDeleteStep (resource ''D'' ''pkg.X'' ''d1'' [])"

definition updateR :: step where
  "updateR = newUpdateStep (resource ''A'' ''pkg.R'' ''A-1'' [(''v'', PNumber 1)])
                           (resource ''A'' ''pkg.R'' [] [(''v'', PNumber 2)])"

definition createN :: step where
  "createN = newCreateStep (resource ''N'' ''nowhere.X'' [] [])"

definition deleteN :: step where
  "deleteN = newDeleteStep (resource ''N'' ''nowhere.X'' ''n1'' [])"

definition updateN :: step where
  "updateN = newUpdateStep (resource ''N'' ''nowhere.X'' ''n1'' [])
                           (resource ''N'' ''nowhere.X'' [] [(''v'', PNumber 2)])"

text \<open>Resources for the planner: the scenarios of the spec (8) and variations.\<close>

definition resA :: Resource where
  "resA = resource ''A'' ''pkg.X'' [] []"

definition resAY :: Resource where
  "resAY = resource ''A'' ''pkg.Y'' [] []"

definition resA1 :: Resource where
  "resA1 = resource ''A'' ''pkg.X'' [] [(''v'', PNumber 1)]"

definition resA2 :: Resource where
  "resA2 = resource ''A'' ''pkg.X'' [] [(''v'', PNumber 2)]"

definition resB :: Resource where
  "resB = resource ''B'' ''pkg.X'' [] [(''ref'', PResource ''A'')]"

definition resC :: Resource where
  "resC = resource ''C'' ''pkg.X'' [] [(''ref'', PResource ''A'')]"

definition resD :: Resource where
  "resD = resource ''D'' ''pkg.X'' [] []"

definition cycA :: Resource where
  "cycA = resource ''A'' ''pkg.X'' [] [(''ref'', PResource ''B'')]"

section \<open>The executor\<close>

lemmas fixtures = resource_def mockProvider_def brokenProvider_def mockContext_def
  createA_def createdA_def updateB_def deleteD_def updateR_def
  createN_def deleteN_def updateN_def
  plan_Provider_def PackageOf_def HasID_def SetID_def
  newCreateStep_def newDeleteStep_def newUpdateStep_def
  OpCreate_def OpDelete_def OpUpdate_def
  step_Apply_def applyCreate_def applyDelete_def applyUpdate_def attempt_def

lemma attempt_createA:
  "attempt mockContext True [] createA =
     Inr (createdA, None, StateOK,
          [CallBefore createA, CallCreate ''pkg.X'' [], CallAfter createdA None StateOK])"
  by (simp add: fixtures)

lemma attempt_updateB:
  "attempt mockContext True tr updateB =
     Inr (updateB, Some ''update failed'', StateCorrupt,
          tr @ [CallBefore updateB, CallUpdate ''b1'' ''broken.X'' [] [(''v'', PNumber 2)],
                CallAfter updateB (Some ''update failed'') StateCorrupt])"
  by (simp add: fixtures)

lemma step_Apply_updateR:
  "step_Apply mockContext [] updateR =
     Inr (updateR\<lparr>new := Some (resource ''A'' ''pkg.R'' ''A-2'' [(''v'', PNumber 2)])\<rparr>,
          None, StateOK, [CallUpdate ''A-1'' ''pkg.R'' [(''v'', PNumber 1)] [(''v'', PNumber 2)]])"
  by (simp add: fixtures)

lemma plan_Apply_append_ok:
  "succeed ctx prog tr ss ss' tr1 \<Longrightarrow>
   plan_Apply ctx prog tr (ss @ rest) =
     (case plan_Apply ctx prog tr1 rest of
        Inl p \<Rightarrow> Inl p
      | Inr (rest', r) \<Rightarrow> Inr (ss' @ rest', r))"
  by (induction rule: succeed.induct) (auto split: sum.splits prod.splits)


lemma ops_distinct:
  "OpCreate \<noteq> OpDelete" "OpCreate \<noteq> OpUpdate" "OpDelete \<noteq> OpUpdate"
  "OpDelete \<noteq> OpCreate" "OpUpdate \<noteq> OpCreate" "OpUpdate \<noteq> OpDelete"
  by (simp_all add: OpCreate_def OpDelete_def OpUpdate_def)

lemma applyCreate_frame:
  assumes "applyCreate ctx tr s = Inr (s', err, rst, tr')"
  shows "op s' = op s \<and> old s' = old s \<and>
         (s' = s \<or> (err = None \<and> (\<exists>n prov i r. new s = Some n \<and> plan_Provider ctx n = Inr prov \<and>
             Create prov tr (rtype n) (properties n) = (i, None, r) \<and>
             new s' = Some (n\<lparr>rid := i\<rparr>)))) \<and>
         (err = None \<longrightarrow> (\<exists>n prov i r. new s = Some n \<and> plan_Provider ctx n = Inr prov \<and>
             Create prov tr (rtype n) (properties n) = (i, None, r) \<and>
             new s' = Some (n\<lparr>rid := i\<rparr>)))"
proof -
  from assms obtain n where n: "old s = None" "new s = Some n" "\<not> HasID n"
    by (auto simp: applyCreate_def split: option.splits if_splits)
  show ?thesis
  proof (cases "plan_Provider ctx n")
    case (Inl e)
    with assms n show ?thesis by (auto simp: applyCreate_def)
  next
    case (Inr prov)
    obtain i e r where c: "Create prov tr (rtype n) (properties n) = (i, e, r)"
      by (cases "Create prov tr (rtype n) (properties n)") auto
    with assms n Inr show ?thesis
      by (cases e) (auto simp: applyCreate_def SetID_def Let_def)
  qed
qed

lemma applyDelete_frame:
  assumes "applyDelete ctx tr s = Inr (s', err, rst, tr')"
  shows "s' = s"
proof -
  from assms obtain ol where n: "old s = Some ol" "new s = None" "HasID ol"
    by (auto simp: applyDelete_def split: option.splits if_splits)
  show ?thesis
  proof (cases "plan_Provider ctx ol")
    case (Inl e)
    with assms n show ?thesis by (auto simp: applyDelete_def)
  next
    case (Inr prov)
    obtain e r where c: "Delete prov tr (rid ol) (rtype ol) = (e, r)"
      by (cases "Delete prov tr (rid ol) (rtype ol)") auto
    with assms n Inr show ?thesis
      by (cases e) (auto simp: applyDelete_def Let_def)
  qed
qed

lemma applyUpdate_frame:
  assumes "applyUpdate ctx tr s = Inr (s', err, rst, tr')"
  shows "op s' = op s \<and> old s' = old s \<and>
         (s' = s \<or> (err = None \<and> (\<exists>ol n prov i r. old s = Some ol \<and> new s = Some n \<and>
             plan_Provider ctx ol = Inr prov \<and>
             Update prov tr (rid ol) (rtype ol) (properties ol) (properties n) = (i, None, r) \<and>
             i \<noteq> [] \<and> new s' = Some (n\<lparr>rid := i\<rparr>))))"
proof -
  from assms obtain ol n where n: "old s = Some ol" "new s = Some n" "HasID ol" "rtype ol = rtype n"
    by (auto simp: applyUpdate_def split: option.splits if_splits)
  show ?thesis
  proof (cases "plan_Provider ctx ol")
    case (Inl e)
    with assms n show ?thesis by (auto simp: applyUpdate_def)
  next
    case (Inr prov)
    obtain i e r where c: "Update prov tr (rid ol) (rtype ol) (properties ol) (properties n) = (i, e, r)"
      by (cases "Update prov tr (rid ol) (rtype ol) (properties ol) (properties n)") auto
    with assms n Inr show ?thesis
      by (cases e; cases "i = []") (auto simp: applyUpdate_def SetID_def Let_def)
  qed
qed


text \<open>
  C5. \<open>plan.Apply\<close> walks the chain from its head in order. When every step succeeds
  it returns no error, no step and \<open>StateOK\<close>. When the steps before \<open>s\<close> succeed and
  the attempt of \<open>s\<close> returns an error, it returns that error, the step \<open>s\<close> as its
  attempt left it, and the state that attempt returned; the steps after \<open>s\<close> are
  returned as they were and no call is made beyond those of \<open>s\<close>.
\<close>

theorem plan_Apply_halts_at_first_error:
  "(succeed ctx prog tr chain chain' tr' \<longrightarrow>
      plan_Apply ctx prog tr chain = Inr (chain', None, None, StateOK, tr')) \<and>
   (succeed ctx prog tr pre pre' tr1 \<and> attempt ctx prog tr1 s = Inr (s', Some e, rst, tr2) \<longrightarrow>
      plan_Apply ctx prog tr (pre @ s # post) = Inr (pre' @ s' # post, Some e, Some s', rst, tr2))"
proof (intro conjI impI)
  assume "succeed ctx prog tr chain chain' tr'"
  from plan_Apply_append_ok [OF this, of "[]"]
  show "plan_Apply ctx prog tr chain = Inr (chain', None, None, StateOK, tr')"
    by simp
next
  assume a: "succeed ctx prog tr pre pre' tr1 \<and> attempt ctx prog tr1 s = Inr (s', Some e, rst, tr2)"
  then have "plan_Apply ctx prog tr1 (s # post) = Inr (s' # post, Some e, Some s', rst, tr2)"
    by simp
  with a plan_Apply_append_ok [of ctx prog tr pre pre' tr1 "s # post"]
  show "plan_Apply ctx prog tr (pre @ s # post) = Inr (pre' @ s' # post, Some e, Some s', rst, tr2)"
    by simp
qed

theorem plan_Apply_halts_at_first_error_witness:
  "succeed mockContext True [] [createA] [createdA]
     [CallBefore createA, CallCreate ''pkg.X'' [], CallAfter createdA None StateOK] \<and>
   plan_Apply mockContext True [] [createA] =
     Inr ([createdA], None, None, StateOK,
          [CallBefore createA, CallCreate ''pkg.X'' [], CallAfter createdA None StateOK]) \<and>
   plan_Apply mockContext True [] [createA, updateB, deleteD] =
     Inr ([createdA, updateB, deleteD], Some ''update failed'', Some updateB, StateCorrupt,
          [CallBefore createA, CallCreate ''pkg.X'' [], CallAfter createdA None StateOK,
           CallBefore updateB, CallUpdate ''b1'' ''broken.X'' [] [(''v'', PNumber 2)],
           CallAfter updateB (Some ''update failed'') StateCorrupt])"
proof -
  let ?tr = "[CallBefore createA, CallCreate ''pkg.X'' [], CallAfter createdA None StateOK]"
  have ok: "succeed mockContext True [] [createA] [createdA] ?tr"
    by (rule succeed_Cons [OF attempt_createA succeed_Nil])
  have all: "plan_Apply mockContext True [] [createA] = Inr ([createdA], None, None, StateOK, ?tr)"
    using plan_Apply_halts_at_first_error [of mockContext True "[]" "[createA]" "[createdA]" ?tr]
      ok by blast
  have halt: "plan_Apply mockContext True [] ([createA] @ updateB # [deleteD]) =
     Inr ([createdA] @ updateB # [deleteD], Some ''update failed'', Some updateB, StateCorrupt,
          ?tr @ [CallBefore updateB, CallUpdate ''b1'' ''broken.X'' [] [(''v'', PNumber 2)],
                 CallAfter updateB (Some ''update failed'') StateCorrupt])"
    using plan_Apply_halts_at_first_error [of mockContext True "[]" "[]" "[]" "[]"
        "[createA]" "[createdA]" ?tr updateB updateB "''update failed''" StateCorrupt _ "[deleteD]"]
      ok attempt_updateB [of ?tr] by blast
  from ok all halt show ?thesis by simp
qed

text \<open>
  C6. An update step that succeeds leaves the new resource with the ID the provider's
  update returned when that ID is not empty, whatever the old ID was, and leaves the new
  resource as it was when the provider returned the empty ID.
\<close>

theorem update_adopts_replacement_ID:
  assumes "op s = OpUpdate" and "step_Apply ctx tr s = Inr (s', None, rst, tr')"
  shows "\<exists>ol n prov i r.
           old s = Some ol \<and> new s = Some n \<and> plan_Provider ctx ol = Inr prov \<and>
           Update prov tr (rid ol) (rtype ol) (properties ol) (properties n) = (i, None, r) \<and>
           new s' = Some (if i \<noteq> [] then n\<lparr>rid := i\<rparr> else n)"
proof -
  have ne: "OpUpdate \<noteq> OpCreate" "OpUpdate \<noteq> OpDelete"
    by (simp_all add: OpUpdate_def OpCreate_def OpDelete_def)
  from assms ne have u: "applyUpdate ctx tr s = Inr (s', None, rst, tr')"
    by (simp add: step_Apply_def)
  then obtain ol n where on: "old s = Some ol" "new s = Some n"
    by (auto simp: applyUpdate_def split: option.splits)
  with u obtain prov where pr: "plan_Provider ctx ol = Inr prov"
    by (auto simp: applyUpdate_def split: sum.splits if_splits)
  obtain i e r where up: "Update prov tr (rid ol) (rtype ol) (properties ol) (properties n) = (i, e, r)"
    by (cases "Update prov tr (rid ol) (rtype ol) (properties ol) (properties n)") auto
  with u on pr have "e = None" and "new s' = Some (if i \<noteq> [] then n\<lparr>rid := i\<rparr> else n)"
    by (auto simp: applyUpdate_def SetID_def Let_def split: option.splits if_splits)
  with on pr up show ?thesis by auto
qed

theorem update_adopts_replacement_ID_witness:
  "op updateR = OpUpdate \<and>
   step_Apply mockContext [] updateR =
     Inr (updateR\<lparr>new := Some (resource ''A'' ''pkg.R'' ''A-2'' [(''v'', PNumber 2)])\<rparr>,
          None, StateOK, [CallUpdate ''A-1'' ''pkg.R'' [(''v'', PNumber 1)] [(''v'', PNumber 2)]]) \<and>
   (\<exists>ol n prov i r.
      old updateR = Some ol \<and> new updateR = Some n \<and> plan_Provider mockContext ol = Inr prov \<and>
      Update prov [] (rid ol) (rtype ol) (properties ol) (properties n) = (i, None, r) \<and>
      new (updateR\<lparr>new := Some (resource ''A'' ''pkg.R'' ''A-2'' [(''v'', PNumber 2)])\<rparr>) =
        Some (if i \<noteq> [] then n\<lparr>rid := i\<rparr> else n))"
proof -
  have o: "op updateR = OpUpdate"
    by (simp add: updateR_def newUpdateStep_def)
  from update_adopts_replacement_ID [OF o step_Apply_updateR] o step_Apply_updateR
  show ?thesis by blast
qed

text \<open>
  C9. A step that returns leaves its operation and its old resource as they were, and
  the moniker, type and properties of its new resource as they were. The new resource
  changes only by its ID: to the ID the provider returned on every successful create,
  and on an update only when the provider returned a non-empty ID.
\<close>

theorem step_Apply_frame:
  assumes "step_Apply ctx tr s = Inr (s', err, rst, tr')"
  shows "op s' = op s \<and> old s' = old s \<and>
         map_option moniker (new s') = map_option moniker (new s) \<and>
         map_option rtype (new s') = map_option rtype (new s) \<and>
         map_option properties (new s') = map_option properties (new s) \<and>
         (new s' \<noteq> new s \<longrightarrow> err = None \<and> (op s = OpCreate \<or> op s = OpUpdate \<and>
            (\<exists>ol n prov i r. old s = Some ol \<and> new s = Some n \<and> plan_Provider ctx ol = Inr prov \<and>
               Update prov tr (rid ol) (rtype ol) (properties ol) (properties n) = (i, None, r) \<and>
               i \<noteq> [] \<and> new s' = Some (n\<lparr>rid := i\<rparr>)))) \<and>
         (op s = OpCreate \<and> err = None \<longrightarrow>
            (\<exists>n prov i r. new s = Some n \<and> plan_Provider ctx n = Inr prov \<and>
               Create prov tr (rtype n) (properties n) = (i, None, r) \<and>
               new s' = Some (n\<lparr>rid := i\<rparr>)))"
proof -
  consider (c) "op s = OpCreate" | (d) "op s = OpDelete" | (u) "op s = OpUpdate"
    using assms by (auto simp: step_Apply_def split: if_splits)
  then show ?thesis
  proof cases
    case c
    with assms have "applyCreate ctx tr s = Inr (s', err, rst, tr')"
      by (simp add: step_Apply_def)
    from applyCreate_frame [OF this] c show ?thesis by auto
  next
    case d
    with assms have "applyDelete ctx tr s = Inr (s', err, rst, tr')"
      by (simp add: step_Apply_def ops_distinct)
    from applyDelete_frame [OF this] d show ?thesis by (simp add: ops_distinct)
  next
    case u
    with assms have "applyUpdate ctx tr s = Inr (s', err, rst, tr')"
      by (simp add: step_Apply_def ops_distinct)
    from applyUpdate_frame [OF this] u show ?thesis by (auto simp: ops_distinct)
  qed
qed


theorem step_Apply_frame_witness:
  "step_Apply mockContext [] updateR =
     Inr (updateR\<lparr>new := Some (resource ''A'' ''pkg.R'' ''A-2'' [(''v'', PNumber 2)])\<rparr>,
          None, StateOK, [CallUpdate ''A-1'' ''pkg.R'' [(''v'', PNumber 1)] [(''v'', PNumber 2)]]) \<and>
   old (updateR\<lparr>new := Some (resource ''A'' ''pkg.R'' ''A-2'' [(''v'', PNumber 2)])\<rparr>) = old updateR \<and>
   map_option properties (new (updateR\<lparr>new := Some (resource ''A'' ''pkg.R'' ''A-2'' [(''v'', PNumber 2)])\<rparr>))
     = map_option properties (new updateR) \<and>
   new (updateR\<lparr>new := Some (resource ''A'' ''pkg.R'' ''A-2'' [(''v'', PNumber 2)])\<rparr>) \<noteq> new updateR"
proof -
  have ne: "new (updateR\<lparr>new := Some (resource ''A'' ''pkg.R'' ''A-2'' [(''v'', PNumber 2)])\<rparr>)
              \<noteq> new updateR"
    by (simp add: updateR_def newUpdateStep_def resource_def)
  from step_Apply_frame [OF step_Apply_updateR] ne step_Apply_updateR
  show ?thesis by blast
qed

text \<open>
  C10. For a create, a delete and an update step whose assertions hold: when the context
  returns an error instead of a provider for the package of the step's resource, the
  step returns that error with \<open>StateOK\<close>, the step is as it was and no call has been
  made.
\<close>

theorem acquisition_failure_is_step_error:
  "(op s = OpCreate \<and> old s = None \<and> new s = Some n \<and> \<not> HasID n \<and> plan_Provider ctx n = Inl e
      \<longrightarrow> step_Apply ctx tr s = Inr (s, Some e, StateOK, tr)) \<and>
   (op s = OpDelete \<and> old s = Some ol \<and> new s = None \<and> HasID ol \<and> plan_Provider ctx ol = Inl e
      \<longrightarrow> step_Apply ctx tr s = Inr (s, Some e, StateOK, tr)) \<and>
   (op s = OpUpdate \<and> old s = Some ol \<and> new s = Some n \<and> rtype ol = rtype n \<and> HasID ol \<and>
      plan_Provider ctx ol = Inl e
      \<longrightarrow> step_Apply ctx tr s = Inr (s, Some e, StateOK, tr))"
  by (simp add: step_Apply_def applyCreate_def applyDelete_def applyUpdate_def ops_distinct)

theorem acquisition_failure_is_step_error_witness:
  "step_Apply mockContext [] createN = Inr (createN, Some ''no provider for package'', StateOK, []) \<and>
   step_Apply mockContext [] deleteN = Inr (deleteN, Some ''no provider for package'', StateOK, []) \<and>
   step_Apply mockContext [] updateN = Inr (updateN, Some ''no provider for package'', StateOK, [])"
proof -
  have c: "op createN = OpCreate \<and> old createN = None \<and>
           new createN = Some (resource ''N'' ''nowhere.X'' [] []) \<and>
           \<not> HasID (resource ''N'' ''nowhere.X'' [] []) \<and>
           plan_Provider mockContext (resource ''N'' ''nowhere.X'' [] []) = Inl ''no provider for package''"
    by (simp add: fixtures)
  have d: "op deleteN = OpDelete \<and> old deleteN = Some (resource ''N'' ''nowhere.X'' ''n1'' []) \<and>
           new deleteN = None \<and> HasID (resource ''N'' ''nowhere.X'' ''n1'' []) \<and>
           plan_Provider mockContext (resource ''N'' ''nowhere.X'' ''n1'' []) = Inl ''no provider for package''"
    by (simp add: fixtures)
  have u: "op updateN = OpUpdate \<and> old updateN = Some (resource ''N'' ''nowhere.X'' ''n1'' []) \<and>
           new updateN = Some (resource ''N'' ''nowhere.X'' [] [(''v'', PNumber 2)]) \<and>
           rtype (resource ''N'' ''nowhere.X'' ''n1'' []) = rtype (resource ''N'' ''nowhere.X'' [] [(''v'', PNumber 2)]) \<and>
           HasID (resource ''N'' ''nowhere.X'' ''n1'' []) \<and>
           plan_Provider mockContext (resource ''N'' ''nowhere.X'' ''n1'' []) = Inl ''no provider for package''"
    by (simp add: fixtures)
  from c acquisition_failure_is_step_error [of createN "resource ''N'' ''nowhere.X'' [] []" mockContext
      "''no provider for package''" "[]"]
  have 1: "step_Apply mockContext [] createN = Inr (createN, Some ''no provider for package'', StateOK, [])"
    by blast
  from d acquisition_failure_is_step_error [of deleteN _ mockContext
      "''no provider for package''" "[]" "resource ''N'' ''nowhere.X'' ''n1'' []"]
  have 2: "step_Apply mockContext [] deleteN = Inr (deleteN, Some ''no provider for package'', StateOK, [])"
    by blast
  from u acquisition_failure_is_step_error [of updateN "resource ''N'' ''nowhere.X'' [] [(''v'', PNumber 2)]"
      mockContext "''no provider for package''" "[]" "resource ''N'' ''nowhere.X'' ''n1'' []"]
  have 3: "step_Apply mockContext [] updateN = Inr (updateN, Some ''no provider for package'', StateOK, [])"
    by blast
  from 1 2 3 show ?thesis by simp
qed

section \<open>The planner\<close>

subsection \<open>The tables and the diff\<close>

lemma index_fold_cases:
  "fold (\<lambda>res t. t(moniker res \<mapsto> res)) rs t0 k = Some r \<Longrightarrow>
     (r \<in> set rs \<and> moniker r = k) \<or> t0 k = Some r"
  by (induction rs arbitrary: t0) (fastforce split: if_splits)+

lemma index_fold_dom:
  "dom (fold (\<lambda>res t. t(moniker res \<mapsto> res)) rs t0) = dom t0 \<union> moniker ` set rs"
  by (induction rs arbitrary: t0) auto

lemma index_fold_other:
  "k \<notin> moniker ` set rs \<Longrightarrow> fold (\<lambda>res t. t(moniker res \<mapsto> res)) rs t0 k = t0 k"
  by (induction rs arbitrary: t0) auto

lemma index_fold_distinct:
  "distinct (map moniker rs) \<Longrightarrow> r \<in> set rs \<Longrightarrow>
     fold (\<lambda>res t. t(moniker res \<mapsto> res)) rs t0 (moniker r) = Some r"
proof (induction rs arbitrary: t0)
  case Nil
  then show ?case by simp
next
  case (Cons a rs)
  show ?case
  proof (cases "r \<in> set rs")
    case True
    with Cons show ?thesis by simp
  next
    case False
    with Cons.prems have ra: "r = a" and "moniker a \<notin> moniker ` set rs" by auto
    with index_fold_other [of "moniker a" rs "t0(moniker a \<mapsto> a)"]
    have "fold (\<lambda>res t. t(moniker res \<mapsto> res)) rs (t0(moniker a \<mapsto> a)) (moniker a) = Some a"
      by simp
    with ra show ?thesis by (simp only: fold_simps)
  qed
qed

lemma keyed_indexOlds: "keyed (indexOlds rs)"
  unfolding keyed_def indexOlds_def using index_fold_cases by fastforce

lemma keyed_indexNews: "keyed (indexNews rs)"
  unfolding keyed_def indexNews_def using index_fold_cases by fastforce

lemma dom_indexOlds: "dom (indexOlds rs) = set (keysOf rs)"
  by (simp add: indexOlds_def keysOf_def index_fold_dom)

lemma dom_indexNews: "dom (indexNews rs) = set (keysOf rs)"
  by (simp add: indexNews_def keysOf_def index_fold_dom)

lemma indexOlds_distinct:
  "distinct (map moniker rs) \<Longrightarrow> r \<in> set rs \<Longrightarrow> indexOlds rs (moniker r) = Some r"
  by (simp add: indexOlds_def index_fold_distinct)

lemma indexNews_distinct:
  "distinct (map moniker rs) \<Longrightarrow> r \<in> set rs \<Longrightarrow> indexNews rs (moniker r) = Some r"
  by (simp add: indexNews_def index_fold_distinct)

lemma keyOrder_set: "keyOrder iter \<Longrightarrow> set (iter (keysOf rs)) = set (keysOf rs)"
  by (simp add: keyOrder_def keysOf_def)

lemma foldE_panics:
  assumes "x \<in> set xs" and "\<And>st. f x st = Inl p" and "\<And>y st q. f y st = Inl q \<Longrightarrow> q = p"
  shows "foldE f xs st = Inl p"
  using assms(1)
proof (induction xs arbitrary: st)
  case Nil
  then show ?case by simp
next
  case (Cons a xs)
  show ?case
  proof (cases "f a st")
    case (Inl q)
    with assms(3) show ?thesis by auto
  next
    case (Inr st')
    with Cons assms(2) have "x \<in> set xs" by auto
    with Cons.IH Inr show ?thesis by simp
  qed
qed

lemma createOrUpdateAt_panic: "createOrUpdateAt olds news k st = Inl q \<Longrightarrow> q = AssertFailed"
  by (auto simp: createOrUpdateAt_def split: option.splits if_splits)

lemma diff_type_mismatch:
  assumes "keyOrder iter" and "indexOlds oldres m = Some ro" and "indexNews newres m = Some rn"
    and "rtype ro \<noteq> rtype rn"
  shows "diff iter oldres newres = Inl AssertFailed"
proof -
  from assms(3) have "m \<in> set (keysOf newres)"
    using dom_indexNews by blast
  with assms(1) have m: "m \<in> set (iter (keysOf newres))"
    by (simp add: keyOrder_set)
  from assms(3) keyed_indexNews have mm: "moniker rn = m"
    by (auto simp: keyed_def)
  have "\<And>st. createOrUpdateAt (indexOlds oldres) (indexNews newres) m st = Inl AssertFailed"
    using assms(2,3,4) mm by (simp add: createOrUpdateAt_def)
  then have "foldE (createOrUpdateAt (indexOlds oldres) (indexNews newres)) (iter (keysOf newres)) st
      = Inl AssertFailed" for st
    using m createOrUpdateAt_panic by (intro foldE_panics [where x = m]) auto
  then show ?thesis by (simp add: diff_def Let_def)
qed

lemma foldE_panics_only:
  assumes "\<And>y st q. f y st = Inl q \<Longrightarrow> q = p"
  shows "foldE f xs st = Inl q \<Longrightarrow> q = p"
proof (induction xs arbitrary: st)
  case Nil
  then show ?case by simp
next
  case (Cons a xs)
  then show ?case
    by (cases "f a st") (auto dest: assms)
qed

lemma deleteAt_fields:
  "creates (deleteAt olds news k st) = creates st"
  "updates (deleteAt olds news k st) = updates st"
  by (simp_all add: deleteAt_def split: option.splits)

lemma fold_deleteAt_fields:
  "creates (fold (deleteAt olds news) ks st) = creates st \<and>
   updates (fold (deleteAt olds news) ks st) = updates st"
proof (induction ks arbitrary: st)
  case Nil
  then show ?case by simp
next
  case (Cons k ks)
  have "fold (deleteAt olds news) (k # ks) st = fold (deleteAt olds news) ks (deleteAt olds news k st)"
    by (simp only: fold_simps)
  with Cons.IH [of "deleteAt olds news k st"] show ?case
    by (simp only: deleteAt_fields)
qed

lemma deleteAt_vs:
  assumes "keyed olds"
  shows "vs (deleteAt olds news k st) m =
     (case olds m of
        None \<Rightarrow> vs st m
      | Some r \<Rightarrow> if m = k \<and> news m = None
                  then Some (newPlanVertex (newDeleteStep r)) else vs st m)"
proof (cases "olds k")
  case None
  then show ?thesis by (auto simp: deleteAt_def split: option.splits)
next
  case (Some a)
  with assms have "moniker a = k" by (simp add: keyed_def)
  with Some show ?thesis by (auto simp: deleteAt_def split: option.splits)
qed

lemma deleteAt_deletes:
  assumes "keyed olds"
  shows "deletes (deleteAt olds news k st) =
     deletes st \<union> {r. olds k = Some r \<and> news k = None}"
proof (cases "olds k")
  case None
  then show ?thesis by (simp add: deleteAt_def)
next
  case (Some a)
  with assms have "moniker a = k" by (simp add: keyed_def)
  with Some show ?thesis by (auto simp: deleteAt_def)
qed

lemma fold_deleteAt_vs:
  assumes "keyed olds"
  shows "vs (fold (deleteAt olds news) ks st) m =
     (case olds m of
        None \<Rightarrow> vs st m
      | Some r \<Rightarrow> if m \<in> set ks \<and> news m = None
                  then Some (newPlanVertex (newDeleteStep r)) else vs st m)"
proof (induction ks arbitrary: st)
  case Nil
  then show ?case by (simp split: option.splits)
next
  case (Cons k ks)
  have "vs (fold (deleteAt olds news) (k # ks) st) m
      = vs (fold (deleteAt olds news) ks (deleteAt olds news k st)) m"
    by (simp only: fold_simps)
  also note Cons.IH
  finally show ?case
    by (cases "olds m") (auto simp: deleteAt_vs [OF assms])
qed

lemma fold_deleteAt_deletes:
  assumes "keyed olds"
  shows "deletes (fold (deleteAt olds news) ks st) =
     deletes st \<union> {r. \<exists>k\<in>set ks. olds k = Some r \<and> news k = None}"
proof (induction ks arbitrary: st)
  case Nil
  then show ?case by simp
next
  case (Cons k ks)
  have "deletes (fold (deleteAt olds news) (k # ks) st)
      = deletes (fold (deleteAt olds news) ks (deleteAt olds news k st))"
    by (simp only: fold_simps)
  also note Cons.IH
  finally show ?case
    by (auto simp: deleteAt_deletes [OF assms])
qed

lemma createOrUpdateAt_deletes:
  "createOrUpdateAt olds news k st = Inr st' \<Longrightarrow> deletes st' = deletes st"
  by (auto simp: createOrUpdateAt_def split: option.splits if_splits)

lemma foldE_createOrUpdateAt_deletes:
  "foldE (createOrUpdateAt olds news) ks st = Inr st' \<Longrightarrow> deletes st' = deletes st"
proof (induction ks arbitrary: st)
  case Nil
  then show ?case by simp
next
  case (Cons k ks)
  then show ?case
    by (cases "createOrUpdateAt olds news k st") (auto dest: createOrUpdateAt_deletes)
qed

lemma createOrUpdateAt_vs:
  assumes "keyed news" and "createOrUpdateAt olds news k st = Inr st1"
  shows "vs st1 m =
       (case news m of
          None \<Rightarrow> vs st m
        | Some n \<Rightarrow>
            if m = k
            then (case olds m of
                    None \<Rightarrow> Some (newPlanVertex (newCreateStep n))
                  | Some ol \<Rightarrow> if DeepEquals (properties n) (properties ol) then vs st m
                              else Some (newPlanVertex (newUpdateStep ol n)))
            else vs st m)"
proof (cases "news k")
  case None
  with assms(2) show ?thesis by (auto simp: createOrUpdateAt_def split: option.splits)
next
  case (Some a)
  with assms have "moniker a = k" by (simp add: keyed_def)
  with Some assms(2) show ?thesis
    by (cases "olds k") (auto simp: createOrUpdateAt_def split: option.splits if_splits)
qed

lemma foldE_createOrUpdateAt_vs:
  assumes "keyed news"
  shows "foldE (createOrUpdateAt olds news) ks st = Inr st' \<Longrightarrow>
     vs st' m =
       (case news m of
          None \<Rightarrow> vs st m
        | Some n \<Rightarrow>
            if m \<in> set ks
            then (case olds m of
                    None \<Rightarrow> Some (newPlanVertex (newCreateStep n))
                  | Some ol \<Rightarrow> if DeepEquals (properties n) (properties ol) then vs st m
                              else Some (newPlanVertex (newUpdateStep ol n)))
            else vs st m)"
proof (induction ks arbitrary: st)
  case Nil
  then show ?case by (simp split: option.splits)
next
  case (Cons k ks)
  from Cons.prems obtain st1 where
    st1: "createOrUpdateAt olds news k st = Inr st1" and
    rest: "foldE (createOrUpdateAt olds news) ks st1 = Inr st'"
    by (cases "createOrUpdateAt olds news k st") auto
  note ih = Cons.IH [OF rest]
  note one = createOrUpdateAt_vs [OF assms st1, of m]
  show ?case
    unfolding ih one
    by (cases "news m"; cases "olds m") auto
qed

lemma createOrUpdateAt_creates:
  assumes "keyed news" and "createOrUpdateAt olds news k st = Inr st1"
  shows "creates st1 = creates st \<union> {n. news k = Some n \<and> olds k = None}"
proof (cases "news k")
  case None
  with assms(2) show ?thesis by (auto simp: createOrUpdateAt_def)
next
  case (Some a)
  with assms have "moniker a = k" by (simp add: keyed_def)
  with Some assms(2) show ?thesis
    by (cases "olds k") (auto simp: createOrUpdateAt_def split: if_splits)
qed

lemma createOrUpdateAt_updates:
  assumes "keyed news" and "keyed olds" and "createOrUpdateAt olds news k st = Inr st1"
  shows "updates st1 ol =
     (if k = moniker ol \<and> olds k = Some ol \<and>
         (\<exists>n. news k = Some n \<and> \<not> DeepEquals (properties n) (properties ol))
      then news k else updates st ol)"
proof (cases "news k")
  case None
  with assms(3) show ?thesis by (auto simp: createOrUpdateAt_def)
next
  case (Some a)
  with assms have ak: "moniker a = k" by (simp add: keyed_def)
  show ?thesis
  proof (cases "olds k")
    case None
    with Some ak assms(3) show ?thesis by (auto simp: createOrUpdateAt_def)
  next
    case (Some b)
    with assms(2) have "moniker b = k" by (simp add: keyed_def)
    with Some \<open>news k = Some a\<close> ak assms(3) show ?thesis
      by (auto simp: createOrUpdateAt_def split: if_splits)
  qed
qed

lemma foldE_createOrUpdateAt_creates:
  assumes "keyed news"
  shows "foldE (createOrUpdateAt olds news) ks st = Inr st' \<Longrightarrow>
     creates st' = creates st \<union> {n. \<exists>k\<in>set ks. news k = Some n \<and> olds k = None}"
proof (induction ks arbitrary: st)
  case Nil
  then show ?case by simp
next
  case (Cons k ks)
  from Cons.prems obtain st1 where
    st1: "createOrUpdateAt olds news k st = Inr st1" and
    rest: "foldE (createOrUpdateAt olds news) ks st1 = Inr st'"
    by (cases "createOrUpdateAt olds news k st") auto
  show ?case
    unfolding Cons.IH [OF rest] createOrUpdateAt_creates [OF assms st1] by auto
qed

lemma foldE_createOrUpdateAt_updates:
  assumes "keyed news" and "keyed olds"
  shows "foldE (createOrUpdateAt olds news) ks st = Inr st' \<Longrightarrow>
     updates st' ol =
       (if moniker ol \<in> set ks \<and> olds (moniker ol) = Some ol \<and>
           (\<exists>n. news (moniker ol) = Some n \<and> \<not> DeepEquals (properties n) (properties ol))
        then news (moniker ol) else updates st ol)"
proof (induction ks arbitrary: st)
  case Nil
  then show ?case by simp
next
  case (Cons k ks)
  from Cons.prems obtain st1 where
    st1: "createOrUpdateAt olds news k st = Inr st1" and
    rest: "foldE (createOrUpdateAt olds news) ks st1 = Inr st'"
    by (cases "createOrUpdateAt olds news k st") auto
  show ?case
    unfolding Cons.IH [OF rest] createOrUpdateAt_updates [OF assms st1] by auto
qed

lemma createOrUpdateAt_Inl:
  assumes "keyed news"
  shows "(\<exists>p. createOrUpdateAt olds news k st = Inl p) \<longleftrightarrow>
       (\<exists>n ol. news k = Some n \<and> olds k = Some ol \<and> rtype ol \<noteq> rtype n)"
proof (cases "news k")
  case None
  then show ?thesis by (simp add: createOrUpdateAt_def)
next
  case (Some a)
  with assms have "moniker a = k" by (simp add: keyed_def)
  with Some show ?thesis
    by (cases "olds k") (simp_all add: createOrUpdateAt_def)
qed

lemma foldE_Inl_iff:
  assumes "\<And>x st. (\<exists>p. f x st = Inl p) \<longleftrightarrow> P x"
  shows "(\<exists>p. foldE f xs st = Inl p) \<longleftrightarrow> (\<exists>x\<in>set xs. P x)"
proof (induction xs arbitrary: st)
  case Nil
  then show ?case by simp
next
  case (Cons x xs)
  show ?case
  proof (cases "f x st")
    case (Inl p)
    then have "P x" using assms by blast
    with Inl show ?thesis by simp
  next
    case (Inr st1)
    then have "\<not> P x" using assms [of x st] by simp
    with Inr Cons.IH [of st1] show ?thesis by simp
  qed
qed

lemma foldE_createOrUpdateAt_Inl:
  assumes "keyed news"
  shows "(\<exists>p. foldE (createOrUpdateAt olds news) ks st = Inl p) \<longleftrightarrow>
         (\<exists>k\<in>set ks. \<exists>n ol. news k = Some n \<and> olds k = Some ol \<and> rtype ol \<noteq> rtype n)"
  by (rule foldE_Inl_iff) (rule createOrUpdateAt_Inl [OF assms])

lemma diff_unfold:
  "diff iter oldres newres =
     foldE (createOrUpdateAt (indexOlds oldres) (indexNews newres)) (iter (keysOf newres))
       (fold (deleteAt (indexOlds oldres) (indexNews newres)) (iter (keysOf oldres)) emptyDiff)"
  by (simp add: diff_def Let_def)

lemma diff_Inl:
  assumes "keyOrder iter"
  shows "(\<exists>p. diff iter oldres newres = Inl p) \<longleftrightarrow> diverge (indexOlds oldres) (indexNews newres)"
proof -
  have kn: "set (iter (keysOf newres)) = dom (indexNews newres)"
    using assms by (simp add: keyOrder_set dom_indexNews)
  have "diverge (indexOlds oldres) (indexNews newres) \<longleftrightarrow>
      (\<exists>k\<in>dom (indexNews newres). \<exists>n ol. indexNews newres k = Some n \<and>
          indexOlds oldres k = Some ol \<and> rtype ol \<noteq> rtype n)"
    unfolding diverge_def by blast
  then show ?thesis
    unfolding diff_unfold foldE_createOrUpdateAt_Inl [OF keyed_indexNews] kn by simp
qed

lemma diff_panic: "diff iter oldres newres = Inl p \<Longrightarrow> p = AssertFailed"
  unfolding diff_unfold
  by (rule foldE_panics_only [of "createOrUpdateAt (indexOlds oldres) (indexNews newres)"])
     (auto dest: createOrUpdateAt_panic)

lemma diff_vs:
  assumes "keyOrder iter" and "diff iter oldres newres = Inr st"
  shows "vs st = vertexFor (indexOlds oldres) (indexNews newres)"
proof
  fix m
  let ?olds = "indexOlds oldres" and ?news = "indexNews newres"
  have ko: "m \<in> set (iter (keysOf oldres)) \<longleftrightarrow> ?olds m \<noteq> None"
    and kn: "m \<in> set (iter (keysOf newres)) \<longleftrightarrow> ?news m \<noteq> None"
    using assms(1) dom_indexOlds [of oldres] dom_indexNews [of newres]
    by (auto simp: keyOrder_set)
  from assms(2) have f: "foldE (createOrUpdateAt ?olds ?news) (iter (keysOf newres))
       (fold (deleteAt ?olds ?news) (iter (keysOf oldres)) emptyDiff) = Inr st"
    by (simp only: diff_unfold)
  have e: "vs emptyDiff m = None"
    by (simp add: emptyDiff_def)
  show "vs st m = vertexFor ?olds ?news m"
    unfolding foldE_createOrUpdateAt_vs [OF keyed_indexNews f]
      fold_deleteAt_vs [OF keyed_indexOlds] vertexFor_def
    by (simp add: ko kn e split: option.splits)
qed

lemma diff_deletes:
  assumes "keyOrder iter" and "diff iter oldres newres = Inr st"
  shows "deletes st = {r. \<exists>k. indexOlds oldres k = Some r \<and> indexNews newres k = None}"
proof -
  let ?olds = "indexOlds oldres" and ?news = "indexNews newres"
  have ko: "set (iter (keysOf oldres)) = dom ?olds"
    using assms(1) by (simp add: keyOrder_set dom_indexOlds)
  from assms(2) have f: "foldE (createOrUpdateAt ?olds ?news) (iter (keysOf newres))
       (fold (deleteAt ?olds ?news) (iter (keysOf oldres)) emptyDiff) = Inr st"
    by (simp only: diff_unfold)
  have e: "deletes emptyDiff = {}"
    by (simp add: emptyDiff_def)
  show ?thesis
    unfolding foldE_createOrUpdateAt_deletes [OF f] fold_deleteAt_deletes [OF keyed_indexOlds] ko e
    by blast
qed

lemma diff_creates:
  assumes "keyOrder iter" and "diff iter oldres newres = Inr st"
  shows "creates st = {n. \<exists>k. indexNews newres k = Some n \<and> indexOlds oldres k = None}"
proof -
  let ?olds = "indexOlds oldres" and ?news = "indexNews newres"
  have kn: "set (iter (keysOf newres)) = dom ?news"
    using assms(1) by (simp add: keyOrder_set dom_indexNews)
  from assms(2) have f: "foldE (createOrUpdateAt ?olds ?news) (iter (keysOf newres))
       (fold (deleteAt ?olds ?news) (iter (keysOf oldres)) emptyDiff) = Inr st"
    by (simp only: diff_unfold)
  have e: "creates (fold (deleteAt ?olds ?news) (iter (keysOf oldres)) emptyDiff) = {}"
    using fold_deleteAt_fields [of ?olds ?news "iter (keysOf oldres)" emptyDiff]
    by (simp add: emptyDiff_def)
  show ?thesis
    unfolding foldE_createOrUpdateAt_creates [OF keyed_indexNews f] kn e
    by blast
qed

lemma diff_updates:
  assumes "keyOrder iter" and "diff iter oldres newres = Inr st"
  shows "updates st ol =
     (if indexOlds oldres (moniker ol) = Some ol \<and>
         (\<exists>n. indexNews newres (moniker ol) = Some n \<and>
              \<not> DeepEquals (properties n) (properties ol))
      then indexNews newres (moniker ol) else None)"
proof -
  let ?olds = "indexOlds oldres" and ?news = "indexNews newres"
  have kn: "moniker ol \<in> set (iter (keysOf newres)) \<longleftrightarrow> ?news (moniker ol) \<noteq> None"
    using assms(1) dom_indexNews [of newres] by (auto simp: keyOrder_set)
  from assms(2) have f: "foldE (createOrUpdateAt ?olds ?news) (iter (keysOf newres))
       (fold (deleteAt ?olds ?news) (iter (keysOf oldres)) emptyDiff) = Inr st"
    by (simp only: diff_unfold)
  have e: "updates (fold (deleteAt ?olds ?news) (iter (keysOf oldres)) emptyDiff) ol = None"
    using fold_deleteAt_fields [of ?olds ?news "iter (keysOf oldres)" emptyDiff]
    by (simp add: emptyDiff_def)
  show ?thesis
    unfolding foldE_createOrUpdateAt_updates [OF keyed_indexNews keyed_indexOlds f] e kn
    by auto
qed

lemma diff_closed:
  assumes "keyOrder iter"
  shows "diff iter oldres newres =
     (if diverge (indexOlds oldres) (indexNews newres) then Inl AssertFailed
      else Inr (diffOf (indexOlds oldres) (indexNews newres)))"
proof (cases "diff iter oldres newres")
  case (Inl p)
  then have "p = AssertFailed" by (rule diff_panic)
  moreover from Inl have "diverge (indexOlds oldres) (indexNews newres)"
    using diff_Inl [OF assms, of oldres newres] by blast
  ultimately show ?thesis using Inl by simp
next
  case (Inr st)
  then have nd: "\<not> diverge (indexOlds oldres) (indexNews newres)"
    using diff_Inl [OF assms, of oldres newres] by auto
  have "updates st = updates (diffOf (indexOlds oldres) (indexNews newres))"
    by (rule ext) (simp add: diff_updates [OF assms Inr] diffOf_def)
  then have "st = diffOf (indexOlds oldres) (indexNews newres)"
    by (intro diffState.equality)
       (simp_all add: diffOf_def diff_vs [OF assms Inr] diff_deletes [OF assms Inr]
          diff_creates [OF assms Inr])
  with nd Inr show ?thesis by simp
qed

lemma indexNews_indexOlds: "indexNews rs = indexOlds rs"
  by (simp add: indexNews_def indexOlds_def)

lemma deleteAt_same:
  assumes "keyed t"
  shows "deleteAt t t k st = st"
proof (cases "t k")
  case None
  then show ?thesis by (simp add: deleteAt_def)
next
  case (Some a)
  with assms have "moniker a = k" by (simp add: keyed_def)
  with Some show ?thesis by (simp add: deleteAt_def)
qed

lemma createOrUpdateAt_same:
  assumes "keyed t"
  shows "createOrUpdateAt t t k st = Inr st"
proof (cases "t k")
  case None
  then show ?thesis by (simp add: createOrUpdateAt_def)
next
  case (Some a)
  with assms have "moniker a = k" by (simp add: keyed_def)
  with Some show ?thesis by (simp add: createOrUpdateAt_def DeepEquals_def)
qed

lemma fold_id: "(\<And>x st. f x st = st) \<Longrightarrow> fold f xs st = st"
  by (induction xs) simp_all

lemma foldE_id: "(\<And>x st. f x st = Inr st) \<Longrightarrow> foldE f xs st = Inr st"
  by (induction xs) simp_all

lemma diff_same: "diff iter rs rs = Inr emptyDiff"
proof -
  have 1: "fold (deleteAt (indexOlds rs) (indexOlds rs)) ks st = st" for ks st
    by (rule fold_id) (rule deleteAt_same [OF keyed_indexOlds])
  have 2: "foldE (createOrUpdateAt (indexOlds rs) (indexOlds rs)) ks st = Inr st" for ks st
    by (rule foldE_id) (rule createOrUpdateAt_same [OF keyed_indexOlds])
  show ?thesis
    by (simp only: diff_unfold indexNews_indexOlds 1 2)
qed

lemma edges_emptyDiff: "edges iter oldres newres emptyDiff = Inr Map.empty"
proof -
  have 1: "foldE (edgesOld iter emptyDiff d) xs v = Inr v" for d xs v
    by (rule foldE_id) (simp add: edgesOld_def emptyDiff_def)
  have 2: "foldE (edgesNew iter emptyDiff) xs v = Inr v" for xs v
    by (rule foldE_id) (simp add: edgesNew_def emptyDiff_def)
  have "vs emptyDiff = Map.empty" by (simp add: emptyDiff_def)
  then show ?thesis by (simp add: edges_def 1 2)
qed

lemma Topsort_no_vertices:
  "Topsort (newPlanGraph iter oldres newres Map.empty) = Inr []"
  by (simp add: Topsort_def newPlanGraph_def vertexKeys_def findRoots_def reachable_def
      List.map_filter_simps)

lemma keyOrder_id: "keyOrder (\<lambda>ks. ks)"
  by (simp add: keyOrder_def)

lemma keyOrder_rev: "keyOrder rev"
  by (simp add: keyOrder_def)

lemmas resources = resource_def resA_def resAY_def resA1_def resA2_def resB_def resC_def
  resD_def cycA_def

text \<open>
  C3. When the two snapshots hold resources with the same moniker and different types,
  plan construction ends in the panic of a bare \<open>contract.Assert\<close> (line 166): no plan
  is returned, and the failure carries neither an error kind nor a moniker. The
  monikers of a snapshot are taken to be unique, as the spec (3) requires.
\<close>

theorem type_mismatch_aborts:
  assumes "keyOrder iter"
    and "distinct (map moniker (Resources old'))" and "distinct (map moniker (Resources new'))"
    and "ro \<in> set (Resources old')" and "rn \<in> set (Resources new')"
    and "moniker ro = moniker rn" and "rtype ro \<noteq> rtype rn"
  shows "newPlan iter old' new' = Inl AssertFailed"
proof -
  from assms(2,4) have o: "indexOlds (Resources old') (moniker rn) = Some ro"
    using indexOlds_distinct assms(6) by metis
  from assms(3,5) have n: "indexNews (Resources new') (moniker rn) = Some rn"
    by (rule indexNews_distinct)
  from diff_type_mismatch [OF assms(1) o n assms(7)]
  show ?thesis by (simp add: newPlan_def Let_def)
qed

theorem type_mismatch_aborts_witness:
  "keyOrder rev \<and>
   distinct (map moniker (Resources (Some [resD, resA]))) \<and>
   distinct (map moniker (Resources (Some [resAY, resB]))) \<and>
   resA \<in> set (Resources (Some [resD, resA])) \<and>
   resAY \<in> set (Resources (Some [resAY, resB])) \<and>
   moniker resA = moniker resAY \<and> rtype resA \<noteq> rtype resAY \<and>
   newPlan rev (Some [resD, resA]) (Some [resAY, resB]) = Inl AssertFailed"
proof -
  have d1: "distinct (map moniker (Resources (Some [resD, resA])))"
    and d2: "distinct (map moniker (Resources (Some [resAY, resB])))"
    and m1: "resA \<in> set (Resources (Some [resD, resA]))"
    and m2: "resAY \<in> set (Resources (Some [resAY, resB]))"
    and eq: "moniker resA = moniker resAY" and ne: "rtype resA \<noteq> rtype resAY"
    by (simp_all add: Resources_def resources)
  from type_mismatch_aborts [OF keyOrder_rev d1 d2 m1 m2 eq ne] keyOrder_rev d1 d2 m1 m2 eq ne
  show ?thesis by simp
qed

text \<open>
  The scenario of the spec (8, scenario 6): old = A:pkg.X, new = A:pkg.Y. The outcome is
  \<open>AssertFailed\<close>, which names no moniker.
\<close>

theorem type_mismatch_counterexample:
  "newPlan (\<lambda>ks. ks) (Some [resA]) (Some [resAY]) = Inl AssertFailed"
  by code_simp

text \<open>
  C4. When no moniker has different types in the two snapshots, the diff returns, and
  it holds for every moniker exactly what \<open>vertexFor\<close> says: one delete step for a
  moniker of the old snapshot only, one create step for a moniker of the new snapshot
  only, one update step for a moniker of both whose property bags differ under
  \<open>DeepEquals\<close>, and no step for a moniker of both with equal bags or of neither.
\<close>

theorem diff_classifies_each_moniker:
  assumes "keyOrder iter"
    and "\<not> diverge (indexOlds (Resources old')) (indexNews (Resources new'))"
  shows "\<exists>st. diff iter (Resources old') (Resources new') = Inr st \<and>
           (\<forall>m. vs st m = vertexFor (indexOlds (Resources old')) (indexNews (Resources new')) m)"
  using assms by (simp add: diff_closed diffOf_def)

theorem diff_classifies_each_moniker_witness:
  "keyOrder (\<lambda>ks. ks) \<and>
   \<not> diverge (indexOlds (Resources (Some [resA1, resB, resD])))
              (indexNews (Resources (Some [resA2, resB, resC]))) \<and>
   (\<exists>st. diff (\<lambda>ks. ks) (Resources (Some [resA1, resB, resD]))
            (Resources (Some [resA2, resB, resC])) = Inr st \<and>
      vs st ''A'' = Some (newPlanVertex (newUpdateStep resA1 resA2)) \<and>
      vs st ''B'' = None \<and>
      vs st ''C'' = Some (newPlanVertex (newCreateStep resC)) \<and>
      vs st ''D'' = Some (newPlanVertex (newDeleteStep resD)) \<and>
      vs st ''E'' = None)"
proof -
  let ?olds = "indexOlds (Resources (Some [resA1, resB, resD]))"
  let ?news = "indexNews (Resources (Some [resA2, resB, resC]))"
  have nd: "\<not> diverge ?olds ?news"
    by (auto simp: diverge_def indexOlds_def indexNews_def Resources_def resources
        split: if_splits)
  have a: "vertexFor ?olds ?news ''A'' = Some (newPlanVertex (newUpdateStep resA1 resA2))"
    by code_simp
  have b: "vertexFor ?olds ?news ''B'' = None"
    by code_simp
  have c: "vertexFor ?olds ?news ''C'' = Some (newPlanVertex (newCreateStep resC))"
    by code_simp
  have d: "vertexFor ?olds ?news ''D'' = Some (newPlanVertex (newDeleteStep resD))"
    by code_simp
  have e: "vertexFor ?olds ?news ''E'' = None"
    by code_simp
  from diff_classifies_each_moniker [OF keyOrder_id nd] obtain st where
    st: "diff (\<lambda>ks. ks) (Resources (Some [resA1, resB, resD]))
           (Resources (Some [resA2, resB, resC])) = Inr st \<and>
         (\<forall>m. vs st m = vertexFor ?olds ?news m)" ..
  note v = st [THEN conjunct2, THEN spec]
  have "diff (\<lambda>ks. ks) (Resources (Some [resA1, resB, resD]))
            (Resources (Some [resA2, resB, resC])) = Inr st \<and>
      vs st ''A'' = Some (newPlanVertex (newUpdateStep resA1 resA2)) \<and>
      vs st ''B'' = None \<and>
      vs st ''C'' = Some (newPlanVertex (newCreateStep resC)) \<and>
      vs st ''D'' = Some (newPlanVertex (newDeleteStep resD)) \<and>
      vs st ''E'' = None"
    using st [THEN conjunct1] v [of "''A''"] v [of "''B''"] v [of "''C''"] v [of "''D''"]
      v [of "''E''"]
    unfolding a b c d e by (intro conjI)
  then have "\<exists>st. diff (\<lambda>ks. ks) (Resources (Some [resA1, resB, resD]))
            (Resources (Some [resA2, resB, resC])) = Inr st \<and>
      vs st ''A'' = Some (newPlanVertex (newUpdateStep resA1 resA2)) \<and>
      vs st ''B'' = None \<and>
      vs st ''C'' = Some (newPlanVertex (newCreateStep resC)) \<and>
      vs st ''D'' = Some (newPlanVertex (newDeleteStep resD)) \<and>
      vs st ''E'' = None"
    by (rule exI [where x = st])
  with keyOrder_id nd show ?thesis by (intro conjI)
qed

text \<open>
  On the snapshots of scenario 6 of the spec the diff classifies nothing: it panics.
\<close>

theorem diff_classifies_counterexample:
  "diff (\<lambda>ks. ks) (Resources (Some [resA])) (Resources (Some [resAY])) = Inl AssertFailed"
proof -
  have "indexOlds (Resources (Some [resA])) ''A'' = Some resA"
    and "indexNews (Resources (Some [resAY])) ''A'' = Some resAY"
    and "rtype resA \<noteq> rtype resAY"
    by code_simp+
  with keyOrder_id show ?thesis by (rule diff_type_mismatch)
qed

text \<open>
  C8. A plan built from the same snapshot as old and as new, present or absent, has no
  steps: \<open>Steps\<close> is nil and \<open>Empty\<close> is true, whatever order the maps are visited in.
\<close>

theorem same_snapshots_give_empty_plan:
  "\<exists>p. newPlan iter snap snap = Inr p \<and> Steps p = None \<and> Empty p"
  by (simp add: newPlan_def Let_def diff_same edges_emptyDiff Topsort_no_vertices
      Steps_def Empty_def)

subsection \<open>The edges\<close>

lemma connectTo_None: "connectTo v a b m = None \<longleftrightarrow> v m = None"
  by (simp add: connectTo_def split: option.splits)

lemma edgeTo_None: "edgeTo m r v = Inr v' \<Longrightarrow> v' k = None \<longleftrightarrow> v k = None"
  by (auto simp: edgeTo_def connectTo_None split: option.splits)

lemma edgeFrom_None: "edgeFrom m r v = Inr v' \<Longrightarrow> v' k = None \<longleftrightarrow> v k = None"
  by (auto simp: edgeFrom_def connectTo_None split: option.splits)

lemma edgeTo_panic: "edgeTo m r v = Inl q \<Longrightarrow> q = AssertFailed"
  by (auto simp: edgeTo_def split: option.splits)

lemma edgeFrom_panic: "edgeFrom m r v = Inl q \<Longrightarrow> q = AssertFailed"
  by (auto simp: edgeFrom_def split: option.splits)

lemma foldE_invariant:
  assumes "\<And>x st st'. I st \<Longrightarrow> f x st = Inr st' \<Longrightarrow> I st'"
  shows "I st \<Longrightarrow> foldE f xs st = Inr st' \<Longrightarrow> I st'"
proof (induction xs arbitrary: st)
  case Nil
  then show ?case by simp
next
  case (Cons x xs)
  from Cons.prems(2) obtain st1 where
    1: "f x st = Inr st1" and 2: "foldE f xs st1 = Inr st'"
    by (cases "f x st") auto
  from assms [OF Cons.prems(1) 1] have "I st1" .
  from Cons.IH [OF this 2] show ?case .
qed

lemma foldE_panics_inv:
  assumes "x \<in> set xs" and "I st"
    and "\<And>y s s'. I s \<Longrightarrow> f y s = Inr s' \<Longrightarrow> I s'"
    and "\<And>s. I s \<Longrightarrow> f x s = Inl p"
    and "\<And>y s q. f y s = Inl q \<Longrightarrow> q = p"
  shows "foldE f xs st = Inl p"
  using assms(1,2)
proof (induction xs arbitrary: st)
  case Nil
  then show ?case by simp
next
  case (Cons a xs)
  show ?case
  proof (cases "f a st")
    case (Inl q)
    with assms(5) show ?thesis by auto
  next
    case (Inr st1)
    with assms(4) [OF Cons.prems(2)] have "a \<noteq> x" by auto
    with Cons.prems(1) have x: "x \<in> set xs" by simp
    from assms(3) [OF Cons.prems(2) Inr] have "I st1" .
    from Cons.IH [OF x this] Inr show ?thesis by simp
  qed
qed

lemma foldE_edgeTo_None:
  "foldE (edgeTo m) rs v = Inr v' \<Longrightarrow> v' k = None \<longleftrightarrow> v k = None"
proof (induction rs arbitrary: v)
  case Nil
  then show ?case by simp
next
  case (Cons r rs)
  from Cons.prems obtain v1 where
    1: "edgeTo m r v = Inr v1" and 2: "foldE (edgeTo m) rs v1 = Inr v'"
    by (cases "edgeTo m r v") auto
  from Cons.IH [OF 2] edgeTo_None [OF 1] show ?case by simp
qed

lemma foldE_edgeFrom_None:
  "foldE (edgeFrom m) rs v = Inr v' \<Longrightarrow> v' k = None \<longleftrightarrow> v k = None"
proof (induction rs arbitrary: v)
  case Nil
  then show ?case by simp
next
  case (Cons r rs)
  from Cons.prems obtain v1 where
    1: "edgeFrom m r v = Inr v1" and 2: "foldE (edgeFrom m) rs v1 = Inr v'"
    by (cases "edgeFrom m r v") auto
  from Cons.IH [OF 2] edgeFrom_None [OF 1] show ?case by simp
qed

lemma foldE_edgeTo_missing:
  assumes "r \<in> set rs" and "v r = None"
  shows "foldE (edgeTo m) rs v = Inl AssertFailed"
proof (rule foldE_panics_inv [where I = "\<lambda>v. v r = None" and x = r])
  show "r \<in> set rs" by fact
  show "v r = None" by fact
  show "\<And>y s s'. s r = None \<Longrightarrow> edgeTo m y s = Inr s' \<Longrightarrow> s' r = None"
    using edgeTo_None by blast
  show "\<And>s. s r = None \<Longrightarrow> edgeTo m r s = Inl AssertFailed"
    by (simp add: edgeTo_def)
  show "\<And>y s q. edgeTo m y s = Inl q \<Longrightarrow> q = AssertFailed"
    by (rule edgeTo_panic)
qed

lemma foldE_edgeFrom_missing:
  assumes "r \<in> set rs" and "v r = None"
  shows "foldE (edgeFrom m) rs v = Inl AssertFailed"
proof (rule foldE_panics_inv [where I = "\<lambda>v. v r = None" and x = r])
  show "r \<in> set rs" by fact
  show "v r = None" by fact
  show "\<And>y s s'. s r = None \<Longrightarrow> edgeFrom m y s = Inr s' \<Longrightarrow> s' r = None"
    using edgeFrom_None by blast
  show "\<And>s. s r = None \<Longrightarrow> edgeFrom m r s = Inl AssertFailed"
    by (simp add: edgeFrom_def)
  show "\<And>y s q. edgeFrom m y s = Inl q \<Longrightarrow> q = AssertFailed"
    by (rule edgeFrom_panic)
qed

lemma foldE_edgeTo_panic: "foldE (edgeTo m) rs v = Inl q \<Longrightarrow> q = AssertFailed"
  by (erule foldE_panics_only [where f = "edgeTo m", rotated]) (rule edgeTo_panic)

lemma foldE_edgeFrom_panic: "foldE (edgeFrom m) rs v = Inl q \<Longrightarrow> q = AssertFailed"
  by (erule foldE_panics_only [where f = "edgeFrom m", rotated]) (rule edgeFrom_panic)

lemma edgesOld_panic: "edgesOld iter st dep res v = Inl q \<Longrightarrow> q = AssertFailed"
  by (auto simp: edgesOld_def split: if_splits option.splits
      dest: foldE_edgeTo_panic foldE_edgeFrom_panic)

lemma edgesNew_panic: "edgesNew iter st res v = Inl q \<Longrightarrow> q = AssertFailed"
  by (auto simp: edgesNew_def split: if_splits option.splits dest: foldE_edgeTo_panic)

lemma edgesOld_None:
  "edgesOld iter st dep res v = Inr v' \<Longrightarrow> v' k = None \<longleftrightarrow> v k = None"
  by (auto simp: edgesOld_def split: if_splits option.splits
      dest: foldE_edgeTo_None foldE_edgeFrom_None)

lemma edgesNew_None:
  "edgesNew iter st res v = Inr v' \<Longrightarrow> v' k = None \<longleftrightarrow> v k = None"
  by (auto simp: edgesNew_def split: if_splits option.splits dest: foldE_edgeTo_None)

lemma foldE_edgesOld_panic:
  "foldE (edgesOld iter st dep) rs v = Inl q \<Longrightarrow> q = AssertFailed"
  by (erule foldE_panics_only [where f = "edgesOld iter st dep", rotated]) (rule edgesOld_panic)

lemma foldE_edgesNew_panic:
  "foldE (edgesNew iter st) rs v = Inl q \<Longrightarrow> q = AssertFailed"
  by (erule foldE_panics_only [where f = "edgesNew iter st", rotated]) (rule edgesNew_panic)

lemma foldE_edgesOld_None:
  "foldE (edgesOld iter st dep) rs v = Inr v' \<Longrightarrow> v k = None \<Longrightarrow> v' k = None"
  by (rule foldE_invariant [where I = "\<lambda>v. v k = None" and f = "edgesOld iter st dep"])
     (auto dest: edgesOld_None)

lemma edges_panic: "edges iter oldres newres st = Inl q \<Longrightarrow> q = AssertFailed"
  by (auto simp: edges_def split: sum.splits dest: foldE_edgesOld_panic foldE_edgesNew_panic)

lemma depend_inner:
  "set (fold (\<lambda>ref d. d(ref := d ref @ [m])) refs d r) =
     set (d r) \<union> (if r \<in> set refs then {m} else {})"
proof (induction refs arbitrary: d)
  case Nil
  then show ?case by simp
next
  case (Cons a refs)
  have "set (fold (\<lambda>ref d. d(ref := d ref @ [m])) (a # refs) d r)
      = set (fold (\<lambda>ref d. d(ref := d ref @ [m])) refs (d(a := d a @ [m])) r)"
    by (simp only: fold_simps)
  also have "\<dots> = set ((d(a := d a @ [m])) r) \<union> (if r \<in> set refs then {m} else {})"
    by (rule Cons.IH)
  also have "\<dots> = set (d r) \<union> (if r \<in> set (a # refs) then {m} else {})"
    by auto
  finally show ?case .
qed

lemma depend_outer:
  "set (fold (\<lambda>res olddepends.
             fold (\<lambda>ref d. d(ref := d ref @ [moniker res]))
                  (iter (AllResources (properties res))) olddepends) rs d r) =
     set (d r) \<union> {moniker x | x. x \<in> set rs \<and> r \<in> set (iter (AllResources (properties x)))}"
proof (induction rs arbitrary: d)
  case Nil
  then show ?case by simp
next
  case (Cons a rs)
  let ?f = "\<lambda>res olddepends.
             fold (\<lambda>ref d. d(ref := d ref @ [moniker res]))
                  (iter (AllResources (properties res))) olddepends"
  have "set (fold ?f (a # rs) d r) = set (fold ?f rs (?f a d) r)"
    by (simp only: fold_simps)
  also have "\<dots> = set (?f a d r) \<union>
      {moniker x | x. x \<in> set rs \<and> r \<in> set (iter (AllResources (properties x)))}"
    by (rule Cons.IH)
  also have "set (?f a d r) =
      set (d r) \<union> (if r \<in> set (iter (AllResources (properties a))) then {moniker a} else {})"
    by (rule depend_inner)
  also have "set (d r) \<union> (if r \<in> set (iter (AllResources (properties a))) then {moniker a} else {}) \<union>
      {moniker x | x. x \<in> set rs \<and> r \<in> set (iter (AllResources (properties x)))}
      = set (d r) \<union>
        {moniker x | x. x \<in> set (a # rs) \<and> r \<in> set (iter (AllResources (properties x)))}"
    by auto
  finally show ?case .
qed

lemma keyOrder_AllResources:
  "keyOrder iter \<Longrightarrow> set (iter (AllResources props)) = set (AllResources props)"
  by (simp add: keyOrder_def AllResources_def)

lemma set_indexDepends:
  assumes "keyOrder iter"
  shows "set (indexDepends iter oldres r) =
     {moniker x | x. x \<in> set oldres \<and> r \<in> set (AllResources (properties x))}"
  unfolding indexDepends_def depend_outer keyOrder_AllResources [OF assms] by simp

lemma indexOlds_mem: "indexOlds rs k = Some r \<Longrightarrow> r \<in> set rs \<and> moniker r = k"
  unfolding indexOlds_def by (drule index_fold_cases) simp

lemma indexNews_mem: "indexNews rs k = Some r \<Longrightarrow> r \<in> set rs \<and> moniker r = k"
  unfolding indexNews_def by (drule index_fold_cases) simp

lemma edgesNew_missing:
  assumes "keyOrder iter" and "n \<in> creates st"
    and "ref \<in> set (AllResources (properties n))" and "v ref = None"
  shows "edgesNew iter st n v = Inl AssertFailed"
proof (cases "v (moniker n)")
  case None
  with assms(2) show ?thesis by (simp add: edgesNew_def)
next
  case (Some x)
  from assms(1,3) have "ref \<in> set (iter (AllResources (properties n)))"
    by (simp add: keyOrder_AllResources)
  from foldE_edgeTo_missing [where v = v and r = ref, OF this assms(4)] Some assms(2)
  show ?thesis by (simp add: edgesNew_def)
qed

lemma edgesOld_update_missing:
  assumes "keyOrder iter" and "ol \<notin> deletes st" and "updates st ol = Some n"
    and "ref \<in> set (AllResources (properties n))" and "v ref = None"
  shows "edgesOld iter st dep ol v = Inl AssertFailed"
proof (cases "v (moniker ol)")
  case None
  with assms(2,3) show ?thesis by (simp add: edgesOld_def)
next
  case (Some x)
  from assms(1,4) have "ref \<in> set (iter (AllResources (properties n)))"
    by (simp add: keyOrder_AllResources)
  from foldE_edgeTo_missing [where v = v and r = ref, OF this assms(5)] Some assms(2,3)
  show ?thesis by (simp add: edgesOld_def)
qed

lemma edgesOld_delete_missing:
  assumes "ol \<in> deletes st" and "ref \<in> set (dep (moniker ol))" and "v ref = None"
  shows "edgesOld iter st dep ol v = Inl AssertFailed"
proof (cases "v (moniker ol)")
  case None
  with assms(1) show ?thesis by (simp add: edgesOld_def)
next
  case (Some x)
  from foldE_edgeFrom_missing [where v = v and r = ref, OF assms(2,3)] Some assms(1)
  show ?thesis by (simp add: edgesOld_def)
qed

lemma foldE_edgesNew_missing:
  assumes "keyOrder iter" and "n \<in> set newres" and "n \<in> creates st"
    and "ref \<in> set (AllResources (properties n))" and "v ref = None"
  shows "foldE (edgesNew iter st) newres v = Inl AssertFailed"
proof (rule foldE_panics_inv [where I = "\<lambda>v. v ref = None" and x = n])
  show "n \<in> set newres" by fact
  show "v ref = None" by fact
  show "\<And>y s s'. s ref = None \<Longrightarrow> edgesNew iter st y s = Inr s' \<Longrightarrow> s' ref = None"
    using edgesNew_None by blast
  show "\<And>s. s ref = None \<Longrightarrow> edgesNew iter st n s = Inl AssertFailed"
    using assms(1,3,4) by (rule edgesNew_missing)
  show "\<And>y s q. edgesNew iter st y s = Inl q \<Longrightarrow> q = AssertFailed"
    by (rule edgesNew_panic)
qed

lemma foldE_edgesOld_missing:
  assumes "ol \<in> set oldres" and "v ref = None"
    and "\<And>s. s ref = None \<Longrightarrow> edgesOld iter st dep ol s = Inl AssertFailed"
  shows "foldE (edgesOld iter st dep) oldres v = Inl AssertFailed"
proof (rule foldE_panics_inv [where I = "\<lambda>v. v ref = None" and x = ol])
  show "ol \<in> set oldres" by fact
  show "v ref = None" by fact
  show "\<And>y s s'. s ref = None \<Longrightarrow> edgesOld iter st dep y s = Inr s' \<Longrightarrow> s' ref = None"
    using edgesOld_None by blast
  show "\<And>s. s ref = None \<Longrightarrow> edgesOld iter st dep ol s = Inl AssertFailed"
    by fact
  show "\<And>y s q. edgesOld iter st dep y s = Inl q \<Longrightarrow> q = AssertFailed"
    by (rule edgesOld_panic)
qed

lemma newPlan_diff_panic:
  "diff iter (Resources old') (Resources new') = Inl p \<Longrightarrow> newPlan iter old' new' = Inl AssertFailed"
  by (frule diff_panic) (simp add: newPlan_def Let_def)

lemma newPlan_edges_panic:
  "diff iter (Resources old') (Resources new') = Inr st \<Longrightarrow>
   edges iter (Resources old') (Resources new') st = Inl p \<Longrightarrow>
   newPlan iter old' new' = Inl AssertFailed"
  by (frule edges_panic) (simp add: newPlan_def Let_def)

text \<open>
  C2. When a moniker \<open>ref\<close> has no vertex (it is a noop, or in neither snapshot) and
  is referenced by the new properties of a created resource or of an updated resource,
  or is a recorded dependent of a deleted resource, plan construction does not omit the
  edge: it ends in the panic of the assertion on \<open>vs[ref]\<close> (lines 201, 214, 229).
\<close>

theorem missing_vertex_aborts:
  assumes "keyOrder iter"
    and "vertexFor (indexOlds (Resources old')) (indexNews (Resources new')) ref = None"
    and "(\<exists>n. indexNews (Resources new') (moniker n) = Some n \<and>
              indexOlds (Resources old') (moniker n) = None \<and>
              ref \<in> set (AllResources (properties n))) \<or>
         (\<exists>ol n. indexOlds (Resources old') (moniker ol) = Some ol \<and>
              indexNews (Resources new') (moniker ol) = Some n \<and>
              \<not> DeepEquals (properties n) (properties ol) \<and>
              ref \<in> set (AllResources (properties n))) \<or>
         (\<exists>ol d. indexOlds (Resources old') (moniker ol) = Some ol \<and>
              indexNews (Resources new') (moniker ol) = None \<and>
              d \<in> set (Resources old') \<and> moniker d = ref \<and>
              moniker ol \<in> set (AllResources (properties d)))"
  shows "newPlan iter old' new' = Inl AssertFailed"
proof (cases "diff iter (Resources old') (Resources new')")
  case (Inl p)
  then show ?thesis by (rule newPlan_diff_panic)
next
  case (Inr st)
  let ?oldres = "Resources old'" and ?newres = "Resources new'"
  let ?olds = "indexOlds ?oldres" and ?news = "indexNews ?newres"
  let ?dep = "indexDepends iter ?oldres"
  from diff_vs [OF assms(1) Inr] assms(2) have v0: "vs st ref = None" by simp
  note dl = diff_deletes [OF assms(1) Inr]
  note cr = diff_creates [OF assms(1) Inr]
  note up = diff_updates [OF assms(1) Inr]
  have "edges iter ?oldres ?newres st = Inl AssertFailed"
    using assms(3)
  proof (elim disjE exE conjE)
    fix n
    assume n: "?news (moniker n) = Some n" "?olds (moniker n) = None"
      and r: "ref \<in> set (AllResources (properties n))"
    from n have c: "n \<in> creates st" unfolding cr by blast
    from n(1) have m: "n \<in> set ?newres" by (simp add: indexNews_mem)
    show ?thesis
    proof (cases "foldE (edgesOld iter st ?dep) ?oldres (vs st)")
      case (Inl q)
      then have "q = AssertFailed" by (rule foldE_edgesOld_panic)
      with Inl show ?thesis by (simp add: edges_def)
    next
      case (Inr v)
      from foldE_edgesOld_None [OF Inr v0] have "v ref = None" .
      from foldE_edgesNew_missing [where v = v and ref = ref, OF assms(1) m c r this] Inr
      show ?thesis by (simp add: edges_def)
    qed
  next
    fix ol n
    assume o: "?olds (moniker ol) = Some ol" and n: "?news (moniker ol) = Some n"
      and d: "\<not> DeepEquals (properties n) (properties ol)"
      and r: "ref \<in> set (AllResources (properties n))"
    from o have m: "ol \<in> set ?oldres" by (simp add: indexOlds_mem)
    have nd: "ol \<notin> deletes st"
    proof
      assume "ol \<in> deletes st"
      then obtain k where k: "?olds k = Some ol" "?news k = None" unfolding dl by blast
      from k(1) have "moniker ol = k" by (simp add: indexOlds_mem)
      with k(2) n show False by simp
    qed
    from o n d have u: "updates st ol = Some n" unfolding up by auto
    have "foldE (edgesOld iter st ?dep) ?oldres (vs st) = Inl AssertFailed"
      using m v0 edgesOld_update_missing [OF assms(1) nd u r]
      by (rule foldE_edgesOld_missing)
    then show ?thesis by (simp add: edges_def)
  next
    fix ol d
    assume o: "?olds (moniker ol) = Some ol" and n: "?news (moniker ol) = None"
      and d: "d \<in> set ?oldres" "moniker d = ref"
      and r: "moniker ol \<in> set (AllResources (properties d))"
    from o have m: "ol \<in> set ?oldres" by (simp add: indexOlds_mem)
    from o n have del: "ol \<in> deletes st" unfolding dl by blast
    from d r have dep: "ref \<in> set (?dep (moniker ol))"
      unfolding set_indexDepends [OF assms(1)] by blast
    have "foldE (edgesOld iter st ?dep) ?oldres (vs st) = Inl AssertFailed"
      using m v0 edgesOld_delete_missing [where dep = "indexDepends iter (Resources old')" and ref = ref, OF del dep]
      by (rule foldE_edgesOld_missing)
    then show ?thesis by (simp add: edges_def)
  qed
  with Inr show ?thesis by (rule newPlan_edges_panic)
qed

theorem missing_vertex_aborts_witness:
  "keyOrder rev \<and>
   vertexFor (indexOlds (Resources (Some [resA]))) (indexNews (Resources (Some [resA, resB])))
     ''A'' = None \<and>
   indexNews (Resources (Some [resA, resB])) (moniker resB) = Some resB \<and>
   indexOlds (Resources (Some [resA])) (moniker resB) = None \<and>
   ''A'' \<in> set (AllResources (properties resB)) \<and>
   newPlan rev (Some [resA]) (Some [resA, resB]) = Inl AssertFailed"
proof -
  have h: "vertexFor (indexOlds (Resources (Some [resA])))
             (indexNews (Resources (Some [resA, resB]))) ''A'' = None \<and>
           indexNews (Resources (Some [resA, resB])) (moniker resB) = Some resB \<and>
           indexOlds (Resources (Some [resA])) (moniker resB) = None \<and>
           ''A'' \<in> set (AllResources (properties resB))"
    by code_simp
  then have "\<exists>n. indexNews (Resources (Some [resA, resB])) (moniker n) = Some n \<and>
              indexOlds (Resources (Some [resA])) (moniker n) = None \<and>
              ''A'' \<in> set (AllResources (properties n))"
    by (intro exI [where x = resB]) simp
  from missing_vertex_aborts [OF keyOrder_rev h [THEN conjunct1] disjI1 [OF this]]
  have "newPlan rev (Some [resA]) (Some [resA, resB]) = Inl AssertFailed" .
  with keyOrder_rev h show ?thesis by (intro conjI) simp_all
qed

text \<open>
  Three plans with a referent that has no vertex: B is created and refers to A, which is
  unchanged; A is deleted and its dependent B is unchanged; B is created and refers to A,
  which is in neither snapshot. Each ends in the assertion's panic.
\<close>

theorem missing_vertex_counterexample:
  "newPlan (\<lambda>ks. ks) (Some [resA]) (Some [resA, resB]) = Inl AssertFailed \<and>
   newPlan (\<lambda>ks. ks) (Some [resA, resB]) (Some [resB]) = Inl AssertFailed \<and>
   newPlan (\<lambda>ks. ks) None (Some [resB]) = Inl AssertFailed"
  by code_simp

subsection \<open>Cycles\<close>

lemma newPlan_graphOf:
  "newPlan iter old' new' =
     (case graphOf iter (Resources old') (Resources new') of
        Inl p \<Rightarrow> Inl p
      | Inr g \<Rightarrow>
          (case Topsort g of
             Inl err \<Rightarrow> Inl (AssertfFailed ''Unexpected error topologically sorting update plan'')
           | Inr topdag \<Rightarrow> Inr (fold (\<lambda>x chain. insertStep chain (data x)) topdag [])))"
  by (simp add: newPlan_def graphOf_def Let_def split: sum.splits)

text \<open>
  The sequencer is given one unit of fuel for each vertex it has to place, and more fuel
  changes nothing: it never reports a cycle for want of fuel.
\<close>

lemma sequence_fuel:
  "length rest \<le> n \<Longrightarrow> sequence g n rest done = sequence g (length rest) rest done"
proof (induction n arbitrary: rest "done" rule: less_induct)
  case (less n)
  show ?case
  proof (cases "filter (\<lambda>m. outsOf g m \<subseteq> set done) rest")
    case Nil
    then show ?thesis
      by (cases n; cases "length rest") simp_all
  next
    case (Cons m ready)
    then have "m \<in> set (filter (\<lambda>m. outsOf g m \<subseteq> set done) rest)" by simp
    then have m: "m \<in> set rest" by simp
    then have lt: "length (removeAll m rest) < length rest"
      by (rule length_removeAll_less)
    from m obtain k where k: "length rest = Suc k" by (cases rest) auto
    with less.prems obtain n' where n': "n = Suc n'" by (cases n) auto
    from lt k have 1: "length (removeAll m rest) \<le> k" by simp
    from lt less.prems n' have 2: "length (removeAll m rest) \<le> n'" by simp
    from less.prems k n' have kn: "k < n" "n' < n" by simp_all
    have "sequence g n rest done = sequence g n' (removeAll m rest) (done @ [m])"
      using Cons n' by simp
    also have "\<dots> = sequence g (length (removeAll m rest)) (removeAll m rest) (done @ [m])"
      using less.IH [OF kn(2) 2] .
    also have "\<dots> = sequence g k (removeAll m rest) (done @ [m])"
      using less.IH [OF kn(1) 1] by simp
    also have "\<dots> = sequence g (length rest) rest done"
      using Cons k by simp
    finally show ?thesis .
  qed
qed

lemma sequence_cycle:
  assumes "\<And>x. x \<in> C \<Longrightarrow> \<exists>y\<in>C. y \<in> outsOf g x"
  shows "c \<in> C \<Longrightarrow> c \<in> set rest \<Longrightarrow> C \<inter> set done = {} \<Longrightarrow>
         \<exists>ms. sequence g n rest done = Inl (CycleDetected ms)"
proof (induction n arbitrary: rest "done")
  case 0
  then have "rest \<noteq> []" by auto
  then show ?case by simp
next
  case (Suc n)
  then have ne: "rest \<noteq> []" by auto
  show ?case
  proof (cases "filter (\<lambda>m. outsOf g m \<subseteq> set done) rest")
    case Nil
    with ne show ?thesis by simp
  next
    case (Cons m ready)
    then have "m \<in> set (filter (\<lambda>m. outsOf g m \<subseteq> set done) rest)" by simp
    then have m: "m \<in> set rest" "outsOf g m \<subseteq> set done" by auto
    have "m \<notin> C"
    proof
      assume "m \<in> C"
      from assms [OF this] obtain y where "y \<in> C" "y \<in> outsOf g m" by blast
      with m(2) Suc.prems(3) show False by auto
    qed
    with Suc.prems have "c \<in> set (removeAll m rest)" "C \<inter> set (done @ [m]) = {}"
      by auto
    from Suc.IH [OF Suc.prems(1) this] Cons show ?thesis by simp
  qed
qed

lemma Topsort_cyclic:
  assumes "cyclic g cyc"
  shows "\<exists>ms. Topsort g = Inl (CycleDetected ms)"
proof -
  from assms obtain c where c: "c \<in> set cyc" "c \<in> set (reachable g)"
    by (cases cyc) (auto simp: cyclic_def)
  have "\<exists>ms. sequence g (length (reachable g)) (reachable g) [] = Inl (CycleDetected ms)"
  proof (rule sequence_cycle [where C = "set cyc" and c = c])
    show "\<And>x. x \<in> set cyc \<Longrightarrow> \<exists>y\<in>set cyc. y \<in> outsOf g x"
      using assms by (simp add: cyclic_def)
  qed (use c in auto)
  then show ?thesis by (auto simp: Topsort_def)
qed

text \<open>
  C1. When the graph built from the two snapshots holds a cycle that can be reached from
  a root, plan construction ends in the panic of the assertion of line 247, with its
  fixed message: no plan is returned, not even a partial one, and the failure names no
  moniker.
\<close>

theorem reachable_cycle_aborts:
  assumes "case graphOf iter (Resources old') (Resources new') of
             Inl p \<Rightarrow> False
           | Inr g \<Rightarrow> cyclic g cyc"
  shows "newPlan iter old' new' =
           Inl (AssertfFailed ''Unexpected error topologically sorting update plan'')"
proof (cases "graphOf iter (Resources old') (Resources new')")
  case (Inl p)
  with assms show ?thesis by simp
next
  case (Inr g)
  with assms have "cyclic g cyc" by simp
  from Topsort_cyclic [OF this] obtain ms where "Topsort g = Inl (CycleDetected ms)" ..
  with Inr show ?thesis by (simp add: newPlan_graphOf)
qed

theorem reachable_cycle_aborts_witness:
  "(case graphOf rev (Resources None) (Resources (Some [cycA, resB, resC])) of
      Inl p \<Rightarrow> False
    | Inr g \<Rightarrow> cyclic g [''A'', ''B'']) \<and>
   newPlan rev None (Some [cycA, resB, resC]) =
     Inl (AssertfFailed ''Unexpected error topologically sorting update plan'')"
proof -
  have h: "case graphOf rev (Resources None) (Resources (Some [cycA, resB, resC])) of
             Inl p \<Rightarrow> False
           | Inr g \<Rightarrow> cyclic g [''A'', ''B'']"
    by code_simp
  from reachable_cycle_aborts [OF h] h show ?thesis by (intro conjI)
qed

text \<open>
  Two plans with a cycle between A and B. With C, a root that refers to A, the outcome
  is the assertion's fixed message, not an error that names A and B. Without a root
  (scenario 5 of the spec) the sequencer is handed no vertex at all and a plan is
  returned: the empty one.
\<close>

theorem cycle_counterexample:
  "newPlan (\<lambda>ks. ks) None (Some [cycA, resB, resC]) =
     Inl (AssertfFailed ''Unexpected error topologically sorting update plan'') \<and>
   newPlan (\<lambda>ks. ks) None (Some [cycA, resB]) = Inr []"
  by code_simp

subsection \<open>The order of the visits\<close>

lemma fold_liftE_Inl: "fold (liftE f) xs (Inl p) = Inl p"
  by (induction xs) (simp_all add: liftE_def)

lemma foldE_fold: "foldE f xs st = fold (liftE f) xs (Inr st)"
proof (induction xs arbitrary: st)
  case Nil
  then show ?case by simp
next
  case (Cons x xs)
  show ?case
  proof (cases "f x st")
    case (Inl p)
    then have "liftE f x (Inr st) = Inl p" by (simp add: liftE_def)
    with Inl show ?thesis by (simp add: fold_liftE_Inl)
  next
    case (Inr s)
    then have "liftE f x (Inr st) = Inr s" by (simp add: liftE_def)
    with Inr Cons.IH [of s] show ?thesis by simp
  qed
qed

lemma foldE_permute:
  assumes "\<And>x y s. liftE f x (f y s) = liftE f y (f x s)"
    and "distinct xs" and "distinct ys" and "set xs = set ys"
  shows "foldE f xs st = foldE f ys st"
proof -
  have c: "liftE f x \<circ> liftE f y = liftE f y \<circ> liftE f x" for x y
  proof
    fix r
    show "(liftE f x \<circ> liftE f y) r = (liftE f y \<circ> liftE f x) r"
    proof (cases r)
      case (Inl p)
      then show ?thesis by (simp add: liftE_def)
    next
      case (Inr s)
      with assms(1) [of x y s] show ?thesis by (simp add: liftE_def)
    qed
  qed
  from assms(2-4) have "mset xs = mset ys"
    by (simp add: set_eq_iff_mset_eq_distinct)
  with c have "fold (liftE f) xs = fold (liftE f) ys"
    by (intro fold_multiset_equiv) auto
  then show ?thesis by (simp add: foldE_fold)
qed

lemma connectTo_commute:
  "connectTo (connectTo v m a) m b = connectTo (connectTo v m b) m a"
  by (rule ext) (auto simp: connectTo_def insert_commute split: option.splits)

lemma edgeTo_swap: "liftE (edgeTo m) a (edgeTo m b v) = liftE (edgeTo m) b (edgeTo m a v)"
proof (cases "v a")
  case a: None
  then have "connectTo v m b a = None" by (simp add: connectTo_None)
  with a show ?thesis
    by (cases "v b") (simp_all add: liftE_def edgeTo_def)
next
  case a: (Some x)
  show ?thesis
  proof (cases "v b")
    case b: None
    then have "connectTo v m a b = None" by (simp add: connectTo_None)
    with a b show ?thesis by (simp add: liftE_def edgeTo_def)
  next
    case b: (Some y)
    from a obtain x' where x': "connectTo v m b a = Some x'"
      using connectTo_None [of v m b a] by (cases "connectTo v m b a") auto
    from b obtain y' where y': "connectTo v m a b = Some y'"
      using connectTo_None [of v m a b] by (cases "connectTo v m a b") auto
    from a b x' y' connectTo_commute [of v m a b] show ?thesis
      by (simp add: liftE_def edgeTo_def)
  qed
qed

lemma keyOrder_distinct_AllResources:
  "keyOrder iter \<Longrightarrow> distinct (iter (AllResources props))"
  by (simp add: keyOrder_def AllResources_def)

lemma foldE_edgeTo_order:
  assumes "keyOrder iter1" and "keyOrder iter2"
  shows "foldE (edgeTo m) (iter1 (AllResources props)) v =
         foldE (edgeTo m) (iter2 (AllResources props)) v"
proof (rule foldE_permute)
  show "\<And>x y s. liftE (edgeTo m) x (edgeTo m y s) = liftE (edgeTo m) y (edgeTo m x s)"
    by (rule edgeTo_swap)
  show "distinct (iter1 (AllResources props))" "distinct (iter2 (AllResources props))"
    using assms by (simp_all add: keyOrder_distinct_AllResources)
  show "set (iter1 (AllResources props)) = set (iter2 (AllResources props))"
    using assms by (simp add: keyOrder_AllResources)
qed

lemma depend_inner_closed:
  "distinct refs \<Longrightarrow>
   fold (\<lambda>ref d. d(ref := d ref @ [m])) refs d =
     (\<lambda>r. if r \<in> set refs then d r @ [m] else d r)"
proof (induction refs arbitrary: d)
  case Nil
  then show ?case by simp
next
  case (Cons a refs)
  have "fold (\<lambda>ref d. d(ref := d ref @ [m])) (a # refs) d
      = fold (\<lambda>ref d. d(ref := d ref @ [m])) refs (d(a := d a @ [m]))"
    by (simp only: fold_simps)
  also have "\<dots> = (\<lambda>r. if r \<in> set refs then (d(a := d a @ [m])) r @ [m] else (d(a := d a @ [m])) r)"
    using Cons.prems by (intro Cons.IH) simp
  also have "\<dots> = (\<lambda>r. if r \<in> set (a # refs) then d r @ [m] else d r)"
    using Cons.prems by (auto simp: fun_eq_iff)
  finally show ?case .
qed

lemma indexDepends_order:
  assumes "keyOrder iter1" and "keyOrder iter2"
  shows "indexDepends iter1 oldres = indexDepends iter2 oldres"
proof -
  have eq: "fold (\<lambda>ref d. d(ref := d ref @ [m])) (iter1 (AllResources props)) d =
        fold (\<lambda>ref d. d(ref := d ref @ [m])) (iter2 (AllResources props)) d" for m props d
    using assms
    by (simp add: depend_inner_closed keyOrder_distinct_AllResources keyOrder_AllResources)
  have "(\<lambda>res olddepends.
             fold (\<lambda>ref d. d(ref := d ref @ [moniker res]))
                  (iter1 (AllResources (properties res))) olddepends) =
        (\<lambda>res olddepends.
             fold (\<lambda>ref d. d(ref := d ref @ [moniker res]))
                  (iter2 (AllResources (properties res))) olddepends)"
    by (intro ext) (simp only: eq)
  then show ?thesis unfolding indexDepends_def by (rule arg_cong [where f = "\<lambda>f. fold f oldres (\<lambda>ref. [])"])
qed

lemma edgesOld_order:
  assumes "keyOrder iter1" and "keyOrder iter2"
  shows "edgesOld iter1 st dep res v = edgesOld iter2 st dep res v"
  by (simp add: edgesOld_def foldE_edgeTo_order [OF assms] split: option.splits)

lemma edgesNew_order:
  assumes "keyOrder iter1" and "keyOrder iter2"
  shows "edgesNew iter1 st res v = edgesNew iter2 st res v"
  by (simp add: edgesNew_def foldE_edgeTo_order [OF assms] split: option.splits)

lemma edges_order:
  assumes "keyOrder iter1" and "keyOrder iter2"
  shows "edges iter1 oldres newres st = edges iter2 oldres newres st"
proof -
  have 1: "edgesOld iter1 st dep = edgesOld iter2 st dep" for dep
    by (intro ext) (rule edgesOld_order [OF assms])
  have 2: "edgesNew iter1 st = edgesNew iter2 st"
    by (intro ext) (rule edgesNew_order [OF assms])
  show ?thesis
    by (simp add: edges_def 1 2 indexDepends_order [OF assms] split: sum.splits)
qed

lemma diff_order:
  assumes "keyOrder iter1" and "keyOrder iter2"
  shows "diff iter1 oldres newres = diff iter2 oldres newres"
  by (simp add: diff_closed [OF assms(1)] diff_closed [OF assms(2)])

lemma outsOf_cong: "vertexOf g1 = vertexOf g2 \<Longrightarrow> outsOf g1 = outsOf g2"
  by (rule ext) (simp add: outsOf_def)

lemma reach_cong: "outsOf g1 = outsOf g2 \<Longrightarrow> reach g1 n S = reach g2 n S"
  by (induction n arbitrary: S) simp_all

lemma sequence_cong:
  "outsOf g1 = outsOf g2 \<Longrightarrow> sequence g1 n rest done = sequence g2 n rest done"
proof (induction n arbitrary: rest "done")
  case 0
  then show ?case by simp
next
  case (Suc n)
  from Suc.IH [OF Suc.prems] Suc.prems show ?case
    by (simp split: list.splits)
qed

lemma Topsort_cong:
  assumes "vertexOf g1 = vertexOf g2" and "nodes g1 = nodes g2"
    and "set (roots g1) = set (roots g2)"
  shows "Topsort g1 = Topsort g2"
proof -
  note o = outsOf_cong [OF assms(1)]
  have r: "reachable g1 = reachable g2"
    by (simp add: reachable_def assms(2,3) reach_cong [OF o])
  show ?thesis
    by (simp add: Topsort_def r assms(1) sequence_cong [OF o] split: sum.splits)
qed

lemma distinct_vertexKeys: "distinct (vertexKeys oldres newres v)"
  by (simp add: vertexKeys_def keysOf_def)

lemma set_findRoots:
  assumes "keyOrder iter1" and "keyOrder iter2" and "distinct keys"
  shows "set (findRoots iter1 keys v) = set (findRoots iter2 keys v)"
proof -
  from assms have "set (iter1 keys) = set (iter2 keys)"
    by (simp add: keyOrder_def)
  then show ?thesis by (simp add: findRoots_def)
qed

lemma Topsort_order:
  assumes "keyOrder iter1" and "keyOrder iter2"
  shows "Topsort (newPlanGraph iter1 oldres newres v) = Topsort (newPlanGraph iter2 oldres newres v)"
  by (rule Topsort_cong)
     (simp_all add: newPlanGraph_def set_findRoots [OF assms distinct_vertexKeys])

text \<open>
  C7. Two runs of plan construction on the same snapshots return the same outcome and,
  when they return a plan, the same chain of steps, whatever order the maps are visited
  in: the roots reach the sequencer in the order of the visit, and the sequencer takes
  the least moniker among the vertices with no remaining prerequisite.
\<close>

theorem plan_independent_of_visiting_order:
  assumes "keyOrder iter1" and "keyOrder iter2"
  shows "newPlan iter1 old' new' = newPlan iter2 old' new'"
proof -
  note d = diff_order [OF assms, of "Resources old'" "Resources new'"]
  show ?thesis
  proof (cases "diff iter2 (Resources old') (Resources new')")
    case (Inl p)
    with d show ?thesis by (simp add: newPlan_def Let_def)
  next
    case (Inr st)
    note e = edges_order [OF assms, of "Resources old'" "Resources new'" st]
    show ?thesis
    proof (cases "edges iter2 (Resources old') (Resources new') st")
      case (Inl p)
      with d Inr e show ?thesis by (simp add: newPlan_def Let_def)
    next
      case e2: (Inr v)
      with d Inr e Topsort_order [OF assms, of "Resources old'" "Resources new'" v]
      show ?thesis by (simp add: newPlan_def Let_def)
    qed
  qed
qed

theorem plan_independent_of_visiting_order_witness:
  "keyOrder (\<lambda>ks. ks) \<and> keyOrder rev \<and>
   newPlan (\<lambda>ks. ks) None (Some [resD, resA, resB]) = newPlan rev None (Some [resD, resA, resB]) \<and>
   newPlan rev None (Some [resD, resA, resB]) =
     Inr [newCreateStep resA, newCreateStep resB, newCreateStep resD]"
proof -
  have "newPlan rev None (Some [resD, resA, resB]) =
     Inr [newCreateStep resA, newCreateStep resB, newCreateStep resD]"
    by code_simp
  with plan_independent_of_visiting_order [OF keyOrder_id keyOrder_rev, of None "Some [resD, resA, resB]"]
    keyOrder_id keyOrder_rev
  show ?thesis by (intro conjI)
qed

end
